theory Spec2Isabelle
  imports Main
begin

section \<open>The node store shared by both variants\<close>

text \<open>
  Both programs build the tree out of \<^verbatim>\<open>FileNode\<close> objects linked by four references
  (\<^verbatim>\<open>parent\<close>, \<^verbatim>\<open>child\<close>, \<^verbatim>\<open>sibling_prev\<close>, \<^verbatim>\<open>sibling_next\<close>).  Objects are compared by
  identity, so an object is an address and every attribute is a function from addresses;
  \<^verbatim>\<open>None\<close> is \<open>None\<close>.  The attribute \<^verbatim>\<open>filename\<close> of simplefilesystem.py is the field
  \<open>name\<close>; that variant has no metadata, and its constant attributes \<^verbatim>\<open>i_nlink\<close> and
  \<^verbatim>\<open>adr\<close> are never read.

  A Python \<^verbatim>\<open>str\<close> is represented by its UTF-8 encoding, a list of bytes.  Every string
  operation of the source (equality, the emptiness test, \<^verbatim>\<open>split('/')\<close>,
  \<^verbatim>\<open>startswith\<close>, slicing off a leading \<^verbatim>\<open>~\<close>, concatenation) commutes with that
  encoding, and \<^verbatim>\<open>len(s.encode('utf-8'))\<close> is the length of the list.

  \<^verbatim>\<open>QDateTime.currentDateTime()\<close> reads the wall clock; each reading is an argument
  (milliseconds, an integer) of the operation that takes it.
\<close>

type_synonym addr = nat

record heap =
  name :: "addr \<Rightarrow> string"
  isdir :: "addr \<Rightarrow> bool"
  parent :: "addr \<Rightarrow> addr option"
  child :: "addr \<Rightarrow> addr option"
  sibling_prev :: "addr \<Rightarrow> addr option"
  sibling_next :: "addr \<Rightarrow> addr option"
  content :: "addr \<Rightarrow> string"
  created :: "addr \<Rightarrow> int"
  modified :: "addr \<Rightarrow> int"
  fsize :: "addr \<Rightarrow> nat"
  nalloc :: addr

text \<open>The heap before any object exists.\<close>

definition empty_heap :: heap where
  "empty_heap = \<lparr> name = (\<lambda>_. []), isdir = (\<lambda>_. False), parent = (\<lambda>_. None),
     child = (\<lambda>_. None), sibling_prev = (\<lambda>_. None), sibling_next = (\<lambda>_. None),
     content = (\<lambda>_. []), created = (\<lambda>_. 0), modified = (\<lambda>_. 0), fsize = (\<lambda>_. 0),
     nalloc = 0 \<rparr>"

text \<open>
  \<^verbatim>\<open>FileNode.__init__\<close> (winfilesystem.py 9-21, simplefilesystem.py 8-17): the new object
  gets the next unused address; \<open>t1\<close> and \<open>t2\<close> are the two clock readings.
\<close>

definition FileNode :: "heap \<Rightarrow> string \<Rightarrow> bool \<Rightarrow> addr option \<Rightarrow> int \<Rightarrow> int \<Rightarrow> addr \<times> heap" where
  "FileNode h nm d par t1 t2 =
     (let a = nalloc h in
      (a, h\<lparr> name := (name h)(a := nm), isdir := (isdir h)(a := d),
             parent := (parent h)(a := par), child := (child h)(a := None),
             sibling_prev := (sibling_prev h)(a := None),
             sibling_next := (sibling_next h)(a := None),
             content := (content h)(a := []),
             created := (created h)(a := t1), modified := (modified h)(a := t2),
             fsize := (fsize h)(a := 0), nalloc := Suc a \<rparr>))"

text \<open>
  The traversal every listing uses (\<^verbatim>\<open>rowCount\<close>, \<^verbatim>\<open>sibling_index\<close>, \<^verbatim>\<open>addTreeItems\<close>):
  start at \<^verbatim>\<open>node.child\<close>, follow \<^verbatim>\<open>sibling_next\<close> until \<^verbatim>\<open>None\<close>.  On a cyclic chain
  the loop does not end: the value is \<open>None\<close>.
\<close>

partial_function (option) walk_siblings :: "heap \<Rightarrow> addr option \<Rightarrow> addr list option" where
  "walk_siblings h c =
     (case c of None \<Rightarrow> Some []
      | Some a \<Rightarrow> Option.bind (walk_siblings h (sibling_next h a)) (\<lambda>r. Some (a # r)))"

definition listChildren :: "heap \<Rightarrow> addr \<Rightarrow> addr list option" where
  "listChildren h p = walk_siblings h (child h p)"

text \<open>
  \<^verbatim>\<open>FileNode.full_path\<close> (winfilesystem.py 23-29): the loop collects names while the node
  has a parent; \<open>join_slash\<close> is \<^verbatim>\<open>'/'.join\<close>.
\<close>

partial_function (option) path_names :: "heap \<Rightarrow> addr \<Rightarrow> string list \<Rightarrow> string list option" where
  "path_names h node path =
     (case parent h node of None \<Rightarrow> Some path
      | Some p \<Rightarrow> path_names h p (path @ [name h node]))"

fun join_slash :: "string list \<Rightarrow> string" where
  "join_slash [] = []"
| "join_slash [x] = x"
| "join_slash (x # y # ys) = x @ CHR ''/'' # join_slash (y # ys)"

definition full_path :: "heap \<Rightarrow> addr \<Rightarrow> string option" where
  "full_path h node =
     map_option (\<lambda>path. if path \<noteq> [] then CHR ''/'' # join_slash (rev path) else ''/'')
       (path_names h node [])"

text \<open>\<^verbatim>\<open>str.split('/')\<close>: the segments between slashes, empty ones included.\<close>

fun split_slash :: "string \<Rightarrow> string list" where
  "split_slash [] = [[]]"
| "split_slash (c # cs) =
     (if c = CHR ''/'' then [] # split_slash cs
      else (c # hd (split_slash cs)) # tl (split_slash cs))"

text \<open>
  The search for a child by name that path resolution uses in both variants: the first
  node of the chain whose name is \<open>nm\<close>, \<open>Some None\<close> when the chain ends without one.
\<close>

partial_function (option) find_child :: "heap \<Rightarrow> addr option \<Rightarrow> string \<Rightarrow> addr option option" where
  "find_child h c nm =
     (case c of None \<Rightarrow> Some None
      | Some a \<Rightarrow> if name h a = nm then Some (Some a) else find_child h (sibling_next h a) nm)"

section \<open>winfilesystem.py\<close>

subsection \<open>Creating nodes\<close>

text \<open>The loop \<^verbatim>\<open>while last.sibling_next: last = last.sibling_next\<close> of \<^verbatim>\<open>_create_node\<close>.\<close>

partial_function (option) last_sibling :: "heap \<Rightarrow> addr \<Rightarrow> addr option" where
  "last_sibling h l =
     (case sibling_next h l of None \<Rightarrow> Some l | Some n \<Rightarrow> last_sibling h n)"

text \<open>\<^verbatim>\<open>FileManager._create_node\<close> (259-269).\<close>

definition create_node :: "heap \<Rightarrow> string \<Rightarrow> bool \<Rightarrow> addr \<Rightarrow> int \<Rightarrow> int \<Rightarrow> (addr \<times> heap) option" where
  "create_node h nm d par t1 t2 =
     (case FileNode h nm d (Some par) t1 t2 of (node, h1) \<Rightarrow>
        (case child h1 par of
           None \<Rightarrow> Some (node, h1\<lparr> child := (child h1)(par := Some node) \<rparr>)
         | Some first \<Rightarrow>
             Option.bind (last_sibling h1 first) (\<lambda>l.
               Some (node, h1\<lparr> sibling_next := (sibling_next h1)(l := Some node),
                               sibling_prev := (sibling_prev h1)(node := Some l) \<rparr>))))"


subsection \<open>Errors and the manager's state\<close>

text \<open>
  The exceptions the program raises, and the one refusal \<^verbatim>\<open>delete_item\<close> reports without
  raising.  \<open>FileNotFoundError p\<close> carries the path that is interpolated into the message.
\<close>

datatype error =
    AttributeError
  | FileExistsError
  | FileNotFoundError string
  | CannotDeleteRoot

text \<open>
  \<^verbatim>\<open>FileManager\<close> together with its \<^verbatim>\<open>FileSystemModel\<close>: \<open>model_root\<close> and
  \<open>model_current\<close> are the model's \<^verbatim>\<open>root\<close> and \<^verbatim>\<open>current\<close> (set once, in
  \<^verbatim>\<open>FileSystemModel.__init__\<close>); \<open>removed\<close> logs the nodes for which \<^verbatim>\<open>remove_node\<close> ran
  \<^verbatim>\<open>beginRemoveRows\<close> .. \<^verbatim>\<open>endRemoveRows\<close>, oldest first.
\<close>

record state =
  hp :: heap
  root :: addr
  current :: addr
  history :: "addr list"
  future :: "addr list"
  address_bar :: string
  model_root :: addr
  model_current :: addr
  removed :: "addr list"

text \<open>
  A \<^verbatim>\<open>QModelIndex\<close>: the invalid index \<^verbatim>\<open>QModelIndex()\<close>, or what
  \<^verbatim>\<open>createIndex(row, column, ptr)\<close> returns.
\<close>

datatype QModelIndex = QInvalid | QIndex nat nat addr

fun isValid :: "QModelIndex \<Rightarrow> bool" where
  "isValid QInvalid = False"
| "isValid (QIndex r c p) = True"

subsection \<open>The item model\<close>

text \<open>The loop of \<^verbatim>\<open>sibling_index\<close> (61-68): the position of \<open>node\<close>, or 0 when the chain ends.\<close>

partial_function (option) index_from :: "heap \<Rightarrow> addr \<Rightarrow> addr option \<Rightarrow> nat \<Rightarrow> nat option" where
  "index_from h node cur i =
     (case cur of None \<Rightarrow> Some 0
      | Some c \<Rightarrow> if c = node then Some i else index_from h node (sibling_next h c) (Suc i))"

text \<open>
  \<^verbatim>\<open>FileSystemModel.sibling_index\<close> (58-68).  The argument may be \<^verbatim>\<open>None\<close>, and then
  \<^verbatim>\<open>node.parent\<close> raises.
\<close>

definition sibling_index :: "heap \<Rightarrow> addr option \<Rightarrow> (error + nat) option" where
  "sibling_index h node =
     (case node of None \<Rightarrow> Some (Inl AttributeError)
      | Some n \<Rightarrow>
          (case parent h n of None \<Rightarrow> Some (Inr 0)
           | Some p \<Rightarrow> map_option Inr (index_from h n (child h p) 0)))"

text \<open>The counting loop of \<^verbatim>\<open>rowCount\<close> (74-79).\<close>

partial_function (option) count_from :: "heap \<Rightarrow> addr option \<Rightarrow> nat \<Rightarrow> nat option" where
  "count_from h c n =
     (case c of None \<Rightarrow> Some n | Some a \<Rightarrow> count_from h (sibling_next h a) (Suc n))"

text \<open>\<^verbatim>\<open>parent.internalPointer() if parent.isValid() else self.current\<close>.\<close>

fun node_of :: "state \<Rightarrow> QModelIndex \<Rightarrow> addr" where
  "node_of s QInvalid = model_current s"
| "node_of s (QIndex r c p) = p"

text \<open>\<^verbatim>\<open>FileSystemModel.rowCount\<close> (70-79); the column of the invalid index is -1.\<close>

fun rowCount :: "state \<Rightarrow> QModelIndex \<Rightarrow> nat option" where
  "rowCount s QInvalid = count_from (hp s) (child (hp s) (model_current s)) 0"
| "rowCount s (QIndex r c p) = (if c > 0 then Some 0 else count_from (hp s) (child (hp s) p) 0)"

definition columnCount :: nat where
  "columnCount = 4"

text \<open>
  \<^verbatim>\<open>QAbstractItemModel.hasIndex\<close> as Qt documents it: row and column are within
  \<^verbatim>\<open>rowCount(parent)\<close> and \<^verbatim>\<open>columnCount(parent)\<close> (they are never negative here).
\<close>

definition hasIndex :: "state \<Rightarrow> nat \<Rightarrow> nat \<Rightarrow> QModelIndex \<Rightarrow> bool option" where
  "hasIndex s r c pidx = map_option (\<lambda>n. r < n \<and> c < columnCount) (rowCount s pidx)"

text \<open>The loop \<^verbatim>\<open>for _ in range(row): child = child.sibling_next if child else None\<close>.\<close>

fun advance :: "heap \<Rightarrow> addr option \<Rightarrow> nat \<Rightarrow> addr option" where
  "advance h c 0 = c"
| "advance h c (Suc n) = advance h (case c of None \<Rightarrow> None | Some a \<Rightarrow> sibling_next h a) n"

text \<open>\<^verbatim>\<open>FileSystemModel.index\<close> (37-45).\<close>

definition index :: "state \<Rightarrow> nat \<Rightarrow> nat \<Rightarrow> QModelIndex \<Rightarrow> QModelIndex option" where
  "index s r c pidx =
     Option.bind (hasIndex s r c pidx) (\<lambda>ok.
       if \<not> ok then Some QInvalid
       else (case advance (hp s) (child (hp s) (node_of s pidx)) r of
               None \<Rightarrow> Some QInvalid
             | Some a \<Rightarrow> Some (QIndex r c a)))"

text \<open>
  \<^verbatim>\<open>FileSystemModel.parent\<close> (47-56).  When the node of the index has no parent, the
  comparison with \<^verbatim>\<open>self.root\<close> and \<^verbatim>\<open>self.current\<close> is false and \<^verbatim>\<open>sibling_index(None)\<close>
  raises.
\<close>

fun model_parent :: "state \<Rightarrow> QModelIndex \<Rightarrow> (error + QModelIndex) option" where
  "model_parent s QInvalid = Some (Inr QInvalid)"
| "model_parent s (QIndex r c ch) =
     (let par = parent (hp s) ch in
      if par = Some (model_root s) \<or> par = Some (model_current s) then Some (Inr QInvalid)
      else Option.bind (sibling_index (hp s) par) (\<lambda>res.
             case res of Inl e \<Rightarrow> Some (Inl e)
             | Inr i \<Rightarrow> (case par of None \<Rightarrow> Some (Inl AttributeError)
                        | Some p \<Rightarrow> Some (Inr (QIndex i 0 p)))))"

text \<open>
  The search loop of \<^verbatim>\<open>remove_node\<close> (117-121): where
  \<^verbatim>\<open>while current and current != node\<close> stops.
\<close>

partial_function (option) find_row :: "heap \<Rightarrow> addr \<Rightarrow> addr option \<Rightarrow> addr option option" where
  "find_row h node cur =
     (case cur of None \<Rightarrow> Some None
      | Some c \<Rightarrow> if c = node then Some (Some c) else find_row h node (sibling_next h c))"

text \<open>
  The assignments of \<^verbatim>\<open>remove_node\<close> (128-137), one heap after the other: each statement
  reads the heap the one before it left.
\<close>

definition unlink :: "heap \<Rightarrow> addr \<Rightarrow> addr \<Rightarrow> heap" where
  "unlink h par node =
     (let h1 = (case sibling_prev h node of None \<Rightarrow> h
                | Some p \<Rightarrow> h\<lparr> sibling_next := (sibling_next h)(p := sibling_next h node) \<rparr>);
          h2 = (case sibling_next h1 node of None \<Rightarrow> h1
                | Some n \<Rightarrow> h1\<lparr> sibling_prev := (sibling_prev h1)(n := sibling_prev h1 node) \<rparr>);
          h3 = (if child h2 par = Some node
                then h2\<lparr> child := (child h2)(par := sibling_next h2 node) \<rparr> else h2)
      in h3\<lparr> parent := (parent h3)(node := None),
              sibling_prev := (sibling_prev h3)(node := None),
              sibling_next := (sibling_next h3)(node := None) \<rparr>)"

text \<open>\<^verbatim>\<open>FileSystemModel.remove_node\<close> (114-140); the result pairs the returned flag with the state.\<close>

definition remove_node :: "state \<Rightarrow> QModelIndex \<Rightarrow> addr \<Rightarrow> (bool \<times> state) option" where
  "remove_node s pidx node =
     (let par = node_of s pidx in
      Option.bind (find_row (hp s) node (child (hp s) par)) (\<lambda>cur.
        case cur of None \<Rightarrow> Some (False, s)
        | Some c \<Rightarrow> Some (True, s\<lparr> hp := unlink (hp s) par node,
                                   removed := removed s @ [node] \<rparr>)))"

subsection \<open>Deleting\<close>

text \<open>
  \<^verbatim>\<open>FileManager._delete_node\<close> (432-439).  The method and its loop call each other;
  \<open>DeleteNode node parent_index\<close> is a call of the method, \<open>DeleteLoop child parent_index\<close>
  the loop at the point where \<^verbatim>\<open>while child\<close> is tested.
\<close>

datatype dcall = DeleteNode addr QModelIndex | DeleteLoop "addr option" QModelIndex

partial_function (option) delete_rec :: "state \<Rightarrow> dcall \<Rightarrow> state option" where
  "delete_rec s c =
     (case c of
        DeleteNode node pidx \<Rightarrow>
          Option.bind (delete_rec s (DeleteLoop (child (hp s) node) pidx)) (\<lambda>s1.
            map_option snd (remove_node s1 pidx node))
      | DeleteLoop ch pidx \<Rightarrow>
          (case ch of None \<Rightarrow> Some s
           | Some c1 \<Rightarrow>
               Option.bind (index s 0 0 pidx) (\<lambda>cidx.
                 Option.bind (delete_rec s (DeleteNode c1 cidx)) (\<lambda>s1.
                   delete_rec s1 (DeleteLoop (sibling_next (hp s) c1) pidx)))))"

definition delete_node :: "state \<Rightarrow> addr \<Rightarrow> QModelIndex \<Rightarrow> state option" where
  "delete_node s node pidx = delete_rec s (DeleteNode node pidx)"

text \<open>
  \<^verbatim>\<open>FileManager.delete_item\<close> (402-430).  \<open>reply\<close> is the answer to the confirmation
  dialog (\<open>True\<close> for Yes).  The result is what the user is told (\<open>Inl\<close>: an error
  dialog) and the state left behind.  The arguments of \<^verbatim>\<open>self.model.index\<close> are evaluated
  left to right.
\<close>

definition delete_item :: "state \<Rightarrow> addr \<Rightarrow> bool \<Rightarrow> ((error + unit) \<times> state) option" where
  "delete_item s node reply =
     (if node = root s then Some (Inl CannotDeleteRoot, s)
      else if isdir (hp s) node \<and> child (hp s) node \<noteq> None \<and> \<not> reply then Some (Inr (), s)
      else
        (let par = parent (hp s) node in
         Option.bind (sibling_index (hp s) par) (\<lambda>r.
           case r of Inl e \<Rightarrow> Some (Inl e, s)
           | Inr row \<Rightarrow>
              (case par of None \<Rightarrow> Some (Inl AttributeError, s)
               | Some p \<Rightarrow>
                  Option.bind (model_parent s (QIndex 0 0 p)) (\<lambda>r2.
                    case r2 of Inl e \<Rightarrow> Some (Inl e, s)
                    | Inr gidx \<Rightarrow>
                       Option.bind (index s row 0 gidx) (\<lambda>pidx.
                         Option.bind (delete_node s node pidx) (\<lambda>s1.
                           let s2 = s1\<lparr> history := filter (\<lambda>n. n \<noteq> node) (history s1) \<rparr>;
                               s3 = s2\<lparr> future := filter (\<lambda>n. n \<noteq> node) (future s2) \<rparr>
                           in if current s3 = node
                              then (let s4 = s3\<lparr> current := root s3 \<rparr> in
                                    Option.bind (full_path (hp s4) (current s4)) (\<lambda>t.
                                      Some (Inr (), s4\<lparr> address_bar := t \<rparr>)))
                              else Some (Inr (), s3))))))))"


subsection \<open>Editing a file\<close>

text \<open>
  \<^verbatim>\<open>FileEditor.save_content\<close> (180-192): \<open>new_content\<close> is the editor's text, \<open>now\<close> the
  clock reading.
\<close>

definition save_content :: "heap \<Rightarrow> addr \<Rightarrow> string \<Rightarrow> int \<Rightarrow> heap" where
  "save_content h node new_content now =
     h\<lparr> content := (content h)(node := new_content),
        modified := (modified h)(node := now),
        fsize := (fsize h)(node := length new_content) \<rparr>"

text \<open>
  \<^verbatim>\<open>FileManager.open_file\<close> (389-400).  \<open>edit\<close> is what the user does in the dialog:
  \<open>Some text\<close> saves \<open>text\<close> (the dialog is accepted), \<open>None\<close> cancels.  After an accepted
  dialog the method computes the index it emits \<^verbatim>\<open>dataChanged\<close> for.
\<close>

definition open_file :: "state \<Rightarrow> addr \<Rightarrow> string option \<Rightarrow> int \<Rightarrow> ((error + unit) \<times> state) option" where
  "open_file s node edit now =
     (if isdir (hp s) node then Some (Inr (), s)
      else (case edit of None \<Rightarrow> Some (Inr (), s)
            | Some text \<Rightarrow>
                (let s1 = s\<lparr> hp := save_content (hp s) node text now \<rparr> in
                 Option.bind (model_parent s1 (QIndex 0 0 node)) (\<lambda>res.
                   case res of Inl e \<Rightarrow> Some (Inl e, s1)
                   | Inr pidx \<Rightarrow> Option.bind (index s1 0 0 pidx) (\<lambda>i. Some (Inr (), s1))))))"

subsection \<open>Creating and renaming\<close>

text \<open>The collision loop of \<^verbatim>\<open>create_item\<close> (376-380).\<close>

partial_function (option) name_taken :: "heap \<Rightarrow> addr option \<Rightarrow> string \<Rightarrow> bool option" where
  "name_taken h c nm =
     (case c of None \<Rightarrow> Some False
      | Some a \<Rightarrow> if name h a = nm then Some True else name_taken h (sibling_next h a) nm)"

text \<open>
  \<^verbatim>\<open>FileManager.create_item\<close> (370-387).  \<open>nm\<close> and \<open>ok\<close> are what the name dialog
  returns, \<open>edit\<close> what the user does in the editor opened on a new file, \<open>t1\<close>, \<open>t2\<close>
  and \<open>now\<close> the clock readings.  An exception raised inside \<^verbatim>\<open>try\<close> is reported with
  the state as it is at that moment.
\<close>

definition create_item ::
  "state \<Rightarrow> addr \<Rightarrow> bool \<Rightarrow> string \<Rightarrow> bool \<Rightarrow> string option \<Rightarrow> int \<Rightarrow> int \<Rightarrow> int
     \<Rightarrow> ((error + unit) \<times> state) option" where
  "create_item s parent_node d nm ok edit t1 t2 now =
     (if \<not> ok \<or> nm = [] then Some (Inr (), s)
      else Option.bind (name_taken (hp s) (child (hp s) parent_node) nm) (\<lambda>taken.
             if taken then Some (Inl FileExistsError, s)
             else Option.bind (create_node (hp s) nm d parent_node t1 t2) (\<lambda>(new_node, h1).
                    let s1 = s\<lparr> hp := h1 \<rparr> in
                    if \<not> d then open_file s1 new_node edit now else Some (Inr (), s1))))"

text \<open>The collision loop of \<^verbatim>\<open>rename_item\<close> (449-452).\<close>

partial_function (option) name_taken_by_other ::
    "heap \<Rightarrow> addr \<Rightarrow> addr option \<Rightarrow> string \<Rightarrow> bool option" where
  "name_taken_by_other h node sib nm =
     (case sib of None \<Rightarrow> Some False
      | Some a \<Rightarrow> if a \<noteq> node \<and> name h a = nm then Some True
                  else name_taken_by_other h node (sibling_next h a) nm)"

text \<open>
  \<^verbatim>\<open>FileManager.rename_item\<close> (441-456); \<^verbatim>\<open>node.parent.child\<close> raises when the node has no
  parent.
\<close>

definition rename_item :: "state \<Rightarrow> addr \<Rightarrow> string \<Rightarrow> bool \<Rightarrow> ((error + unit) \<times> state) option" where
  "rename_item s node new_name ok =
     (if \<not> ok \<or> new_name = [] then Some (Inr (), s)
      else (case parent (hp s) node of
              None \<Rightarrow> Some (Inl AttributeError, s)
            | Some p \<Rightarrow>
                Option.bind (name_taken_by_other (hp s) node (child (hp s) p) new_name) (\<lambda>taken.
                  if taken then Some (Inl FileExistsError, s)
                  else Some (Inr (), s\<lparr> hp := (hp s)\<lparr> name := (name (hp s))(node := new_name) \<rparr> \<rparr>))))"

subsection \<open>Path resolution\<close>

text \<open>The loop over the parts in \<^verbatim>\<open>resolve_path\<close> (278-297).\<close>

fun walk_parts :: "heap \<Rightarrow> string \<Rightarrow> addr \<Rightarrow> string list \<Rightarrow> (error + addr) option" where
  "walk_parts h path cur [] = Some (Inr cur)"
| "walk_parts h path cur (part # parts) =
     (if part = ''.'' then walk_parts h path cur parts
      else if part = ''..'' then
        walk_parts h path (case parent h cur of None \<Rightarrow> cur | Some p \<Rightarrow> p) parts
      else Option.bind (find_child h (child h cur) part) (\<lambda>found.
             case found of None \<Rightarrow> Some (Inl (FileNotFoundError path))
             | Some n \<Rightarrow> walk_parts h path n parts))"

text \<open>\<^verbatim>\<open>FileManager.resolve_path\<close> (271-297).\<close>

definition resolve_path :: "state \<Rightarrow> string \<Rightarrow> (error + addr) option" where
  "resolve_path s path0 =
     (let path = (if path0 \<noteq> [] \<and> hd path0 = CHR ''~'' then ''/Home'' @ tl path0 else path0);
          cur = (if path \<noteq> [] \<and> hd path = CHR ''/'' then root s else current s);
          parts = filter (\<lambda>p. p \<noteq> []) (split_slash path)
      in walk_parts (hp s) path cur parts)"

subsection \<open>Navigation\<close>

text \<open>
  \<^verbatim>\<open>navigateTree\<close> (303-310); \<^verbatim>\<open>index.data(Qt.UserRole)\<close> is \<^verbatim>\<open>None\<close> for the invalid index
  and the node of the index otherwise (\<^verbatim>\<open>FileSystemModel.data\<close>, 84-105).
\<close>

fun navigateTree :: "state \<Rightarrow> QModelIndex \<Rightarrow> state option" where
  "navigateTree s QInvalid = Some s"
| "navigateTree s (QIndex r c node) =
     (if isdir (hp s) node
      then Option.bind (full_path (hp s) node) (\<lambda>t.
             Some (s\<lparr> history := history s @ [current s], future := [], current := node,
                      address_bar := t \<rparr>))
      else Some s)"


text \<open>\<^verbatim>\<open>navigateBack\<close> (327-332); \<^verbatim>\<open>list.pop()\<close> takes the last element.\<close>

definition navigateBack :: "state \<Rightarrow> state option" where
  "navigateBack s =
     (if history s \<noteq> []
      then (let s1 = s\<lparr> future := future s @ [current s] \<rparr>;
                s2 = s1\<lparr> current := last (history s1), history := butlast (history s1) \<rparr>
            in Option.bind (full_path (hp s2) (current s2)) (\<lambda>t. Some (s2\<lparr> address_bar := t \<rparr>)))
      else Some s)"

text \<open>\<^verbatim>\<open>navigateForward\<close> (334-339).\<close>

definition navigateForward :: "state \<Rightarrow> state option" where
  "navigateForward s =
     (if future s \<noteq> []
      then (let s1 = s\<lparr> history := history s @ [current s] \<rparr>;
                s2 = s1\<lparr> current := last (future s1), future := butlast (future s1) \<rparr>
            in Option.bind (full_path (hp s2) (current s2)) (\<lambda>t. Some (s2\<lparr> address_bar := t \<rparr>)))
      else Some s)"

text \<open>\<^verbatim>\<open>navigateUp\<close> (341-346).\<close>

definition navigateUp :: "state \<Rightarrow> state option" where
  "navigateUp s =
     (case parent (hp s) (current s) of
        None \<Rightarrow> Some s
      | Some p \<Rightarrow>
          (let s1 = s\<lparr> history := history s @ [current s] \<rparr>;
               s2 = s1\<lparr> current := p \<rparr>
           in Option.bind (full_path (hp s2) (current s2)) (\<lambda>t. Some (s2\<lparr> address_bar := t \<rparr>))))"

subsection \<open>Start-up\<close>

text \<open>
  \<^verbatim>\<open>FileManager.__init__\<close> (195-205): the root is \<^verbatim>\<open>FileNode("", True)\<close>, the model is built
  on it, and \<^verbatim>\<open>initFileSystem\<close> creates the directory \<^verbatim>\<open>ROOT\<close> under it.  \<open>ta\<close> .. \<open>td\<close> are the
  four clock readings, in order.
\<close>

definition FileManager :: "int \<Rightarrow> int \<Rightarrow> int \<Rightarrow> int \<Rightarrow> state option" where
  "FileManager ta tb tc td =
     (case FileNode empty_heap [] True None ta tb of (r, h0) \<Rightarrow>
        Option.bind (create_node h0 ''ROOT'' True r tc td) (\<lambda>(home, h1).
          Some \<lparr> hp = h1, root = r, current = r, history = [], future = [],
                 address_bar = [], model_root = r, model_current = r, removed = [] \<rparr>))"


section \<open>simplefilesystem.py\<close>

text \<open>\<^verbatim>\<open>Filesystem\<close>: the heap, \<^verbatim>\<open>self.root\<close> and \<^verbatim>\<open>self.current_node\<close>.\<close>

record fs =
  fs_heap :: heap
  fs_root :: addr
  current_node :: addr

text \<open>What the variant tells the user with \<^verbatim>\<open>QMessageBox.warning\<close>.\<close>

datatype warning = DirectoryNotFound | AlreadyExists | ParentNotDirectoryOrNotFound

text \<open>\<^verbatim>\<open>Filesystem.__init__\<close> (20-25): the root is \<^verbatim>\<open>FileNode("/", True)\<close>.\<close>

definition Filesystem :: fs where
  "Filesystem =
     (case FileNode empty_heap ''/'' True None 0 0 of (r, h) \<Rightarrow>
        \<lparr> fs_heap = h, fs_root = r, current_node = r \<rparr>)"

text \<open>
  The loop over the names in \<^verbatim>\<open>findNode\<close> (117-131).  The inner \<open>None\<close> is the
  \<^verbatim>\<open>return None\<close> of the \<^verbatim>\<open>while\<close> .. \<^verbatim>\<open>else\<close>.
\<close>

fun find_names :: "heap \<Rightarrow> addr \<Rightarrow> string list \<Rightarrow> addr option option" where
  "find_names h node [] = Some (Some node)"
| "find_names h node (nm # names) =
     (if nm = [] then find_names h node names
      else (case child h node of
              None \<Rightarrow> Some None
            | Some c \<Rightarrow>
                if name h c = nm then find_names h c names
                else Option.bind (find_child h (Some c) nm) (\<lambda>found.
                       case found of None \<Rightarrow> Some None
                       | Some n \<Rightarrow> find_names h n names)))"

text \<open>\<^verbatim>\<open>Filesystem.findNode\<close> (114-131).\<close>

definition findNode :: "fs \<Rightarrow> string \<Rightarrow> addr option option" where
  "findNode s path = find_names (fs_heap s) (fs_root s) (split_slash path)"

text \<open>\<^verbatim>\<open>Filesystem.addChildNode\<close> (133-137).\<close>

definition addChildNode :: "heap \<Rightarrow> addr \<Rightarrow> addr \<Rightarrow> heap" where
  "addChildNode h parent_node new_node =
     (let h2 = (case child h parent_node of None \<Rightarrow> h
                | Some c \<Rightarrow>
                    (let h1 = h\<lparr> sibling_next := (sibling_next h)(new_node := Some c) \<rparr> in
                     (case child h1 parent_node of None \<Rightarrow> h1
                      | Some c1 \<Rightarrow> h1\<lparr> sibling_prev := (sibling_prev h1)(c1 := Some new_node) \<rparr>)))
      in h2\<lparr> child := (child h2)(parent_node := Some new_node) \<rparr>)"

text \<open>
  \<^verbatim>\<open>onCreateDir\<close> (139-158) and \<^verbatim>\<open>onCreateFile\<close> (160-179) differ in the flag passed to
  \<^verbatim>\<open>FileNode\<close> only; \<open>path\<close> is the text of the line edit.
\<close>

definition on_create :: "bool \<Rightarrow> fs \<Rightarrow> string \<Rightarrow> ((warning + unit) \<times> fs) option" where
  "on_create d s path =
     (let names = split_slash path in
      Option.bind
        (if length names > 1
         then map_option (\<lambda>p. (last names, p)) (findNode s (join_slash (butlast names)))
         else Some (path, Some (current_node s)))
        (\<lambda>(nm, parent_node).
           case parent_node of
             None \<Rightarrow> Some (Inl ParentNotDirectoryOrNotFound, s)
           | Some par \<Rightarrow>
               if \<not> isdir (fs_heap s) par then Some (Inl ParentNotDirectoryOrNotFound, s)
               else Option.bind (findNode s path) (\<lambda>found.
                      case found of
                        Some n \<Rightarrow> Some (Inl AlreadyExists, s)
                      | None \<Rightarrow>
                          (case FileNode (fs_heap s) nm d (Some par) 0 0 of (new_node, h1) \<Rightarrow>
                             Some (Inr (), s\<lparr> fs_heap := addChildNode h1 par new_node \<rparr>)))))"

definition onCreateDir :: "fs \<Rightarrow> string \<Rightarrow> ((warning + unit) \<times> fs) option" where
  "onCreateDir = on_create True"

definition onCreateFile :: "fs \<Rightarrow> string \<Rightarrow> ((warning + unit) \<times> fs) option" where
  "onCreateFile = on_create False"

text \<open>\<^verbatim>\<open>onPathEntered\<close> (105-112).\<close>

definition onPathEntered :: "fs \<Rightarrow> string \<Rightarrow> ((warning + unit) \<times> fs) option" where
  "onPathEntered s path =
     Option.bind (findNode s path) (\<lambda>found.
       case found of None \<Rightarrow> Some (Inl DirectoryNotFound, s)
       | Some node \<Rightarrow> Some (Inr (), s\<lparr> current_node := node \<rparr>))"

text \<open>
  The loop \<^verbatim>\<open>while sibling and sibling.sibling_next != node\<close> of \<^verbatim>\<open>deleteNode\<close>
  (200-201): where it stops.
\<close>

partial_function (option) find_pred :: "heap \<Rightarrow> addr \<Rightarrow> addr option \<Rightarrow> addr option option" where
  "find_pred h node sib =
     (case sib of None \<Rightarrow> Some None
      | Some a \<Rightarrow> if sibling_next h a \<noteq> Some node then find_pred h node (sibling_next h a)
                  else Some (Some a))"

text \<open>The first half of \<^verbatim>\<open>deleteNode\<close> (193-205): the node leaves its parent's list.\<close>

definition detach :: "heap \<Rightarrow> addr \<Rightarrow> heap option" where
  "detach h node =
     (case parent h node of
        None \<Rightarrow> Some h
      | Some p \<Rightarrow>
          if child h p = Some node then
            (let h1 = h\<lparr> child := (child h)(p := sibling_next h node) \<rparr> in
             Some (case sibling_next h1 node of None \<Rightarrow> h1
                   | Some n \<Rightarrow> h1\<lparr> sibling_prev := (sibling_prev h1)(n := None) \<rparr>))
          else
            Option.bind (find_pred h node (child h p)) (\<lambda>sib.
              case sib of None \<Rightarrow> Some h
              | Some b \<Rightarrow>
                  (let h1 = h\<lparr> sibling_next := (sibling_next h)(b := sibling_next h node) \<rparr> in
                   Some (case sibling_next h1 node of None \<Rightarrow> h1
                         | Some n \<Rightarrow> h1\<lparr> sibling_prev := (sibling_prev h1)(n := Some b) \<rparr>))))"

text \<open>
  \<^verbatim>\<open>Filesystem.deleteNode\<close> (192-213): \<open>SDelete node\<close> is a call of the method, \<open>SLoop
  sibling\<close> its loop over the children at the point where \<^verbatim>\<open>while sibling\<close> is tested.
  \<^verbatim>\<open>del node\<close> unbinds the local name only.
\<close>

datatype scall = SDelete addr | SLoop "addr option"

partial_function (option) deleteNode_rec :: "heap \<Rightarrow> scall \<Rightarrow> heap option" where
  "deleteNode_rec h c =
     (case c of
        SDelete node \<Rightarrow>
          Option.bind (detach h node) (\<lambda>h1.
            case child h1 node of None \<Rightarrow> Some h1
            | Some first \<Rightarrow> deleteNode_rec h1 (SLoop (Some first)))
      | SLoop sib \<Rightarrow>
          (case sib of None \<Rightarrow> Some h
           | Some sb \<Rightarrow>
               Option.bind (deleteNode_rec h (SDelete sb)) (\<lambda>h1.
                 deleteNode_rec h1 (SLoop (sibling_next h sb)))))"

definition deleteNode :: "fs \<Rightarrow> addr \<Rightarrow> fs option" where
  "deleteNode s node =
     map_option (\<lambda>h. s\<lparr> fs_heap := h \<rparr>) (deleteNode_rec (fs_heap s) (SDelete node))"

text \<open>
  \<^verbatim>\<open>onDelete\<close> (181-190) for the selected node; \<open>reply\<close> is the answer to the confirmation
  asked for a directory.
\<close>

definition onDelete :: "fs \<Rightarrow> addr \<Rightarrow> bool \<Rightarrow> fs option" where
  "onDelete s node reply =
     (if isdir (fs_heap s) node then (if reply then deleteNode s node else Some s)
      else deleteNode s node)"



declare walk_siblings.simps [code] last_sibling.simps [code] path_names.simps [code]
  find_child.simps [code] index_from.simps [code] count_from.simps [code]
  find_row.simps [code] delete_rec.simps [code] name_taken.simps [code]
  name_taken_by_other.simps [code] find_pred.simps [code] deleteNode_rec.simps [code]


section \<open>Scenarios\<close>

text \<open>
  A session of winfilesystem.py: after start-up (root 0, \<^verbatim>\<open>ROOT\<close> 1) the user creates the
  directory \<^verbatim>\<open>d\<close> (2) in \<^verbatim>\<open>ROOT\<close>, the directory \<^verbatim>\<open>e\<close> (3) in \<^verbatim>\<open>d\<close>, the directory \<^verbatim>\<open>f\<close>
  (4) in \<^verbatim>\<open>ROOT\<close> and the file \<^verbatim>\<open>g\<close> (5) in \<^verbatim>\<open>f\<close>, saving the text \<^verbatim>\<open>hi\<close> in it.
\<close>

definition demo :: "state option" where
  "demo =
     Option.bind (FileManager 0 0 0 0) (\<lambda>s0.
     Option.bind (create_item s0 1 True ''d'' True None 1 1 1) (\<lambda>(r1, s1).
     Option.bind (create_item s1 2 True ''e'' True None 2 2 2) (\<lambda>(r2, s2).
     Option.bind (create_item s2 1 True ''f'' True None 3 3 3) (\<lambda>(r3, s3).
     Option.bind (create_item s3 4 False ''g'' True (Some ''hi'') 4 4 5) (\<lambda>(r4, s4).
       Some s4)))))"

text \<open>The user then opens \<^verbatim>\<open>ROOT\<close>, \<^verbatim>\<open>d\<close> and \<^verbatim>\<open>e\<close>, goes up, and opens \<^verbatim>\<open>e\<close> again.\<close>

definition visited :: "state option" where
  "visited =
     Option.bind demo (\<lambda>s0.
     Option.bind (navigateTree s0 (QIndex 0 0 1)) (\<lambda>s1.
     Option.bind (navigateTree s1 (QIndex 0 0 2)) (\<lambda>s2.
     Option.bind (navigateTree s2 (QIndex 0 0 3)) (\<lambda>s3.
     Option.bind (navigateUp s3) (\<lambda>s4. navigateTree s4 (QIndex 0 0 3))))))"

text \<open>Or opens \<^verbatim>\<open>ROOT\<close> and \<^verbatim>\<open>d\<close> and goes back once.\<close>

definition went_back :: "state option" where
  "went_back =
     Option.bind demo (\<lambda>s0.
     Option.bind (navigateTree s0 (QIndex 0 0 1)) (\<lambda>s1.
     Option.bind (navigateTree s1 (QIndex 0 0 2)) (\<lambda>s2. navigateBack s2)))"

text \<open>The navigation state \<open>{current, history, future}\<close>.\<close>

definition nav :: "state \<Rightarrow> addr \<times> addr list \<times> addr list" where
  "nav s = (current s, history s, future s)"

text \<open>
  A session of simplefilesystem.py: the user creates the directory \<^verbatim>\<open>d\<close> (1) under the root
  (0), enters the path \<^verbatim>\<open>d\<close>, which makes it the current node, and creates the file \<^verbatim>\<open>x\<close>
  (2) by entering the name \<^verbatim>\<open>x\<close>.
\<close>

definition simple_demo :: "fs option" where
  "simple_demo =
     Option.bind (onCreateDir Filesystem ''d'') (\<lambda>(r1, s1).
     Option.bind (onPathEntered s1 ''d'') (\<lambda>(r2, s2).
     Option.bind (onCreateFile s2 ''x'') (\<lambda>(r3, s3). Some s3)))"

section \<open>Navigation as the specification words it\<close>

text \<open>
  \<open>navigateTo(node)\<close>: push \<open>current\<close> onto \<open>history\<close>; clear \<open>future\<close>; set \<open>current = node\<close>.
  \<open>up()\<close>: \<open>navigateTo(current.parent)\<close> if \<open>current.parent\<close> exists, else no-op.
\<close>

definition spec_navigateTo :: "addr \<times> addr list \<times> addr list \<Rightarrow> addr \<Rightarrow> addr \<times> addr list \<times> addr list" where
  "spec_navigateTo n node = (case n of (cur, hist, fut) \<Rightarrow> (node, hist @ [cur], []))"

definition spec_up :: "heap \<Rightarrow> addr \<times> addr list \<times> addr list \<Rightarrow> addr \<times> addr list \<times> addr list" where
  "spec_up h n = (case parent h (fst n) of None \<Rightarrow> n | Some p \<Rightarrow> spec_navigateTo n p)"

section \<open>Abstractions used in the statements\<close>

text \<open>
  \<open>chain h c xs\<close>: following \<^verbatim>\<open>sibling_next\<close> from \<open>c\<close> visits exactly the nodes \<open>xs\<close>, in
  this order, and then reaches \<^verbatim>\<open>None\<close>.
\<close>

fun chain :: "heap \<Rightarrow> addr option \<Rightarrow> addr list \<Rightarrow> bool" where
  "chain h c [] = (c = None)"
| "chain h c (x # xs) = (c = Some x \<and> chain h (sibling_next h x) xs)"

text \<open>
  The link invariant of the tree, over the allocated objects: a first child points back to
  its parent and has no predecessor, a next sibling has the same parent and points back to
  its predecessor, and no link leaves the allocated addresses.
\<close>

definition node_ok :: "heap \<Rightarrow> addr \<Rightarrow> bool" where
  "node_ok h a \<longleftrightarrow>
     (case child h a of None \<Rightarrow> True
      | Some b \<Rightarrow> b < nalloc h \<and> parent h b = Some a \<and> sibling_prev h b = None)
     \<and> (case sibling_next h a of None \<Rightarrow> True
         | Some b \<Rightarrow> b < nalloc h \<and> parent h b = parent h a \<and> sibling_prev h b = Some a)
     \<and> (case parent h a of None \<Rightarrow> True | Some p \<Rightarrow> p < nalloc h)"

definition links_ok :: "heap \<Rightarrow> bool" where
  "links_ok h \<longleftrightarrow> list_all (node_ok h) [0..<nalloc h]"

text \<open>A name that is one path segment and neither \<^verbatim>\<open>.\<close> nor \<^verbatim>\<open>..\<close>.\<close>

definition plain :: "string \<Rightarrow> bool" where
  "plain nm \<longleftrightarrow> nm \<noteq> [] \<and> nm \<noteq> ''.'' \<and> nm \<noteq> ''..'' \<and> CHR ''/'' \<notin> set nm"

text \<open>
  \<open>descends h a ns\<close>: the nodes \<open>ns\<close> lead downwards from \<open>a\<close>; each one has the node before
  it as its parent and is listed among that node's children, whose names are pairwise
  distinct.
\<close>

fun descends :: "heap \<Rightarrow> addr \<Rightarrow> addr list \<Rightarrow> bool" where
  "descends h a [] = True"
| "descends h a (n # ns) =
     (parent h n = Some a
      \<and> (case listChildren h a of None \<Rightarrow> False
          | Some cs \<Rightarrow> n \<in> set cs \<and> distinct (map (name h) cs))
      \<and> descends h n ns)"

text \<open>
  The subtree below a node as a value: a node with the subtrees of its children, in list
  order.  \<open>nodes\<close> lists a subtree parents first, \<open>postorder\<close> children first.
\<close>

datatype rose = Rose addr "rose list"

fun root_of :: "rose \<Rightarrow> addr" where
  "root_of (Rose a ts) = a"

fun nodes :: "rose \<Rightarrow> addr list" where
  "nodes (Rose a ts) = a # concat (map nodes ts)"

fun postorder :: "rose \<Rightarrow> addr list" where
  "postorder (Rose a ts) = concat (map postorder ts) @ [a]"

text \<open>
  \<open>dchain h prv c xs\<close>: a sibling chain that is also linked backwards; \<open>prv\<close> is what the
  first node's \<^verbatim>\<open>sibling_prev\<close> holds.
\<close>

fun dchain :: "heap \<Rightarrow> addr option \<Rightarrow> addr option \<Rightarrow> addr list \<Rightarrow> bool" where
  "dchain h prv c [] = (c = None)"
| "dchain h prv c (x # xs) =
     (c = Some x \<and> sibling_prev h x = prv \<and> dchain h (Some x) (sibling_next h x) xs)"

text \<open>
  \<open>wf_tree h t\<close>: the heap holds the subtree \<open>t\<close>: the child list of every node of \<open>t\<close> is
  the doubly linked chain of the roots of its subtrees, and these name the node as parent.
\<close>

fun wf_tree :: "heap \<Rightarrow> rose \<Rightarrow> bool" where
  "wf_tree h (Rose a ts) =
     (dchain h None (child h a) (map root_of ts)
      \<and> (\<forall>t \<in> set ts. parent h (root_of t) = Some a \<and> wf_tree h t))"

text \<open>
  The heap after the subtree with the nodes \<open>S\<close>, whose root \<open>node\<close> heads the child list of
  \<open>par\<close>, has been taken out: every link of a node of \<open>S\<close> is \<^verbatim>\<open>None\<close>, \<open>par\<close> points at the
  former second child, and that child has no predecessor.
\<close>

definition wipe :: "heap \<Rightarrow> addr \<Rightarrow> addr \<Rightarrow> addr set \<Rightarrow> heap" where
  "wipe h par node S =
     h\<lparr> parent := (\<lambda>a. if a \<in> S then None else parent h a),
        child := (\<lambda>a. if a \<in> S then None
                      else if a = par then sibling_next h node else child h a),
        sibling_prev := (\<lambda>a. if a \<in> S then None
                             else if sibling_next h node = Some a then None
                             else sibling_prev h a),
        sibling_next := (\<lambda>a. if a \<in> S then None else sibling_next h a) \<rparr>"

text \<open>What can be reached from \<open>r\<close> by following \<^verbatim>\<open>child\<close> and \<^verbatim>\<open>sibling_next\<close>.\<close>

inductive reach :: "heap \<Rightarrow> addr \<Rightarrow> addr \<Rightarrow> bool" for h :: heap and r :: addr where
  reach_self: "reach h r r"
| reach_child: "reach h r a \<Longrightarrow> child h a = Some b \<Longrightarrow> reach h r b"
| reach_next: "reach h r a \<Longrightarrow> sibling_next h a = Some b \<Longrightarrow> reach h r b"

text \<open>The heap after all children of \<open>n\<close>, with the nodes \<open>S\<close> below them, have been taken out.\<close>

definition cleared :: "heap \<Rightarrow> addr \<Rightarrow> addr set \<Rightarrow> heap" where
  "cleared h n S =
     h\<lparr> parent := (\<lambda>a. if a \<in> S then None else parent h a),
        child := (\<lambda>a. if a \<in> S \<or> a = n then None else child h a),
        sibling_prev := (\<lambda>a. if a \<in> S then None else sibling_prev h a),
        sibling_next := (\<lambda>a. if a \<in> S then None else sibling_next h a) \<rparr>"

text \<open>
  \<open>heads h t par sibs\<close>: the heap holds the subtree \<open>t\<close>, without repetition; its root is the
  first child of \<open>par\<close> and is followed by the siblings \<open>sibs\<close>; \<open>par\<close> and \<open>sibs\<close> lie outside
  \<open>t\<close>.
\<close>

definition heads :: "heap \<Rightarrow> rose \<Rightarrow> addr \<Rightarrow> addr list \<Rightarrow> bool" where
  "heads h t par sibs \<longleftrightarrow>
     wf_tree h t \<and> distinct (nodes t)
     \<and> child h par = Some (root_of t) \<and> sibling_prev h (root_of t) = None
     \<and> chain h (sibling_next h (root_of t)) sibs
     \<and> par \<notin> set (nodes t) \<and> set sibs \<inter> set (nodes t) = {}"

text \<open>
  The state after \<^verbatim>\<open>_delete_node\<close> has taken the subtree \<open>t\<close> out from under \<open>par\<close>: the heap
  is wiped as described, and the removals are logged children first.
\<close>

definition after_delete :: "state \<Rightarrow> rose \<Rightarrow> addr \<Rightarrow> state" where
  "after_delete s t par =
     s\<lparr> hp := wipe (hp s) par (root_of t) (set (nodes t)),
        removed := removed s @ postorder t \<rparr>"

section \<open>Properties\<close>

subsection \<open>Sibling chains and the loops over them\<close>

lemma chain_walk: "chain h c xs \<Longrightarrow> walk_siblings h c = Some xs"
  by (induction xs arbitrary: c) (subst walk_siblings.simps, simp)+

lemma walk_chain:
  assumes "walk_siblings h c = Some xs" shows "chain h c xs"
proof (rule walk_siblings.raw_induct[where P = "\<lambda>h c xs. chain h c xs", OF _ assms])
  fix walk h c xs
  assume ih: "\<And>h c xs. walk h c = Some xs \<Longrightarrow> chain h c xs"
    and eq: "(case c of None \<Rightarrow> Some []
              | Some a \<Rightarrow> Option.bind (walk h (sibling_next h a)) (\<lambda>r. Some (a # r))) = Some xs"
  show "chain h c xs"
    using eq ih by (cases c) (auto split: Option.bind_splits)
qed

lemma walk_siblings_iff: "walk_siblings h c = Some xs \<longleftrightarrow> chain h c xs"
  using chain_walk walk_chain by blast

lemma listChildren_iff: "listChildren h p = Some xs \<longleftrightarrow> chain h (child h p) xs"
  by (simp add: listChildren_def walk_siblings_iff)

lemma chain_unique: "chain h c xs \<Longrightarrow> chain h c ys \<Longrightarrow> xs = ys"
proof (induction xs arbitrary: c ys)
  case Nil
  then show ?case by (cases ys) auto
next
  case (Cons x xs)
  then show ?case by (cases ys) auto
qed

lemma chain_append:
  "chain h c (ys @ zs) \<Longrightarrow> \<exists>d. chain h d zs \<and> (ys = [] \<longrightarrow> d = c)"
  by (induction ys arbitrary: c) auto

lemma chain_notin:
  assumes "chain h (sibling_next h a) xs" shows "a \<notin> set xs"
proof
  assume "a \<in> set xs"
  then obtain ys zs where xs: "xs = ys @ a # zs" by (meson split_list)
  with assms obtain d where "chain h d (a # zs)" using chain_append by blast
  then have "chain h (sibling_next h a) zs" by simp
  with assms have "xs = zs" by (rule chain_unique)
  with xs have "length zs = length ys + Suc (length zs)" by (metis length_append length_Cons)
  then show False by simp
qed

lemma chain_distinct: "chain h c xs \<Longrightarrow> distinct xs"
  by (induction xs arbitrary: c) (auto dest: chain_notin)

lemma chain_cong:
  "(\<And>x. x \<in> set xs \<Longrightarrow> sibling_next h' x = sibling_next h x) \<Longrightarrow> chain h' c xs = chain h c xs"
  by (induction xs arbitrary: c) auto

lemma chain_last_next: "chain h c xs \<Longrightarrow> xs \<noteq> [] \<Longrightarrow> sibling_next h (last xs) = None"
  by (induction xs arbitrary: c) auto

lemma last_sibling_chain: "chain h (Some a) xs \<Longrightarrow> last_sibling h a = Some (last xs)"
proof (induction xs arbitrary: a)
  case Nil
  then show ?case by simp
next
  case (Cons x xs)
  show ?case
  proof (cases xs)
    case Nil
    with Cons.prems show ?thesis by (subst last_sibling.simps) simp
  next
    case (Cons y ys)
    with Cons.prems Cons.IH[of y] show ?thesis by (subst last_sibling.simps) simp
  qed
qed

lemma find_child_chain:
  "chain h c xs \<Longrightarrow> find_child h c nm = Some (find (\<lambda>a. name h a = nm) xs)"
  by (induction xs arbitrary: c) (subst find_child.simps, simp)+

lemma name_taken_chain:
  "chain h c xs \<Longrightarrow> name_taken h c nm = Some (nm \<in> name h ` set xs)"
  by (induction xs arbitrary: c) (subst name_taken.simps, auto)+

lemma name_taken_by_other_chain:
  "chain h c xs \<Longrightarrow>
   name_taken_by_other h node c nm = Some (\<exists>a \<in> set xs. a \<noteq> node \<and> name h a = nm)"
  by (induction xs arbitrary: c) (subst name_taken_by_other.simps, auto)+

lemma count_from_chain: "chain h c xs \<Longrightarrow> count_from h c n = Some (n + length xs)"
  by (induction xs arbitrary: c n) (subst count_from.simps, simp)+

lemma find_row_chain:
  "chain h c xs \<Longrightarrow> find_row h node c = Some (if node \<in> set xs then Some node else None)"
  by (induction xs arbitrary: c) (subst find_row.simps, auto)+

subsection \<open>The link invariant\<close>

lemma links_ok_node: "links_ok h \<Longrightarrow> a < nalloc h \<Longrightarrow> node_ok h a"
  by (simp add: links_ok_def list_all_iff)

lemma links_okD:
  assumes "links_ok h" and "a < nalloc h"
  shows "child h a = Some b \<Longrightarrow> b < nalloc h \<and> parent h b = Some a \<and> sibling_prev h b = None"
    and "sibling_next h a = Some b \<Longrightarrow>
           b < nalloc h \<and> parent h b = parent h a \<and> sibling_prev h b = Some a"
    and "parent h a = Some p \<Longrightarrow> p < nalloc h"
  using links_ok_node[OF assms] by (simp_all add: node_ok_def)


subsection \<open>Where a new node is linked in\<close>

lemma chain_snoc:
  assumes "chain h c xs" and "xs \<noteq> []" and "n \<notin> set xs" and "sibling_next h n = None"
  shows "chain (h\<lparr> sibling_next := (sibling_next h)(last xs := Some n) \<rparr>) c (xs @ [n])"
  using assms
proof (induction xs arbitrary: c)
  case Nil
  then show ?case by simp
next
  case (Cons x xs)
  show ?case
  proof (cases xs)
    case Nil
    with Cons.prems show ?thesis by auto
  next
    case (Cons y ys)
    have "x \<notin> set xs" using Cons.prems(1) by (auto dest: chain_notin)
    then have "x \<noteq> last xs" using Cons by auto
    with Cons.prems Cons.IH[of "sibling_next h x"] Cons show ?thesis by auto
  qed
qed

lemma FileNode_chain:
  assumes "chain h c xs" and "\<forall>x\<in>set xs. x < nalloc h"
  shows "chain (snd (FileNode h nm d par t1 t2)) c xs"
proof -
  have "chain (snd (FileNode h nm d par t1 t2)) c xs = chain h c xs"
    using assms(2) by (intro chain_cong) (auto simp: FileNode_def Let_def)
  with assms show ?thesis by simp
qed

lemma create_node_appends:
  assumes ch: "listChildren h par = Some xs"
    and par: "par < nalloc h" and alloc: "\<forall>x\<in>set xs. x < nalloc h"
  shows "\<exists>h'. create_node h nm d par t1 t2 = Some (nalloc h, h')
              \<and> listChildren h' par = Some (xs @ [nalloc h])
              \<and> name h' = (name h)(nalloc h := nm)"
proof -
  let ?n = "nalloc h"
  obtain h1 where h1: "FileNode h nm d (Some par) t1 t2 = (?n, h1)"
    by (simp add: FileNode_def Let_def)
  have nm1: "name h1 = (name h)(?n := nm)" using h1 by (auto simp: FileNode_def Let_def)
  have c0: "chain h (child h par) xs" using ch by (simp add: listChildren_iff)
  have c1: "chain h1 (child h par) xs" using FileNode_chain[OF c0 alloc] h1 by (metis snd_conv)
  have ch1: "child h1 par = child h par" using h1 par by (auto simp: FileNode_def Let_def)
  have nx: "sibling_next h1 ?n = None" using h1 by (auto simp: FileNode_def Let_def)
  have notin: "?n \<notin> set xs" using alloc by auto
  show ?thesis
  proof (cases xs)
    case Nil
    with c1 ch1 have "child h1 par = None" by simp
    then show ?thesis using h1 Nil nx nm1
      by (simp add: create_node_def listChildren_iff)
  next
    case (Cons x ys)
    with c1 ch1 have first: "child h1 par = Some x" by simp
    have ls: "last_sibling h1 x = Some (last xs)"
      using c1 Cons by (intro last_sibling_chain) (simp add: ch1[symmetric])
    have "chain (h1\<lparr> sibling_next := (sibling_next h1)(last xs := Some ?n) \<rparr>) (child h par) (xs @ [?n])"
      using c1 Cons notin nx by (intro chain_snoc) auto
    then have "chain (h1\<lparr> sibling_next := (sibling_next h1)(last xs := Some ?n),
                  sibling_prev := (sibling_prev h1)(?n := Some (last xs)) \<rparr>) (child h1 par) (xs @ [?n])"
      by (subst chain_cong[where h = "h1\<lparr> sibling_next := (sibling_next h1)(last xs := Some ?n) \<rparr>"])
         (simp_all add: ch1)
    then show ?thesis using h1 first ls nm1
      by (simp add: create_node_def listChildren_iff)
  qed
qed

lemma addChildNode_prepends:
  assumes ch: "listChildren h par = Some xs"
    and par: "par < nalloc h" and alloc: "\<forall>x\<in>set xs. x < nalloc h"
  shows "listChildren (addChildNode (snd (FileNode h nm d (Some par) t1 t2)) par (nalloc h)) par
           = Some (nalloc h # xs)"
proof -
  let ?n = "nalloc h"
  obtain h1 where h1: "FileNode h nm d (Some par) t1 t2 = (?n, h1)"
    by (simp add: FileNode_def Let_def)
  have c0: "chain h (child h par) xs" using ch by (simp add: listChildren_iff)
  have c1: "chain h1 (child h par) xs" using FileNode_chain[OF c0 alloc] h1 by (metis snd_conv)
  have ch1: "child h1 par = child h par" using h1 par by (auto simp: FileNode_def Let_def)
  have nx: "sibling_next h1 ?n = None" using h1 by (auto simp: FileNode_def Let_def)
  have notin: "?n \<notin> set xs" using alloc by auto
  have "chain (addChildNode h1 par ?n) (child (addChildNode h1 par ?n) par) (?n # xs)"
  proof (cases xs)
    case Nil
    with c1 ch1 have "child h1 par = None" by simp
    then show ?thesis using Nil nx by (simp add: addChildNode_def)
  next
    case (Cons x ys)
    with c1 ch1 have first: "child h1 par = Some x" by simp
    have "chain (h1\<lparr> sibling_next := (sibling_next h1)(?n := Some x) \<rparr>) (Some x) xs"
      using c1 Cons notin by (subst chain_cong[where h = h1]) (auto simp: ch1 first)
    then have "chain (h1\<lparr> sibling_next := (sibling_next h1)(?n := Some x),
                    sibling_prev := (sibling_prev h1)(x := Some ?n),
                    child := (child h1)(par := Some ?n) \<rparr>) (Some x) xs"
      by (subst chain_cong[where h = "h1\<lparr> sibling_next := (sibling_next h1)(?n := Some x) \<rparr>"]) simp_all
    then show ?thesis using first by (simp add: addChildNode_def Let_def)
  qed
  then show ?thesis using h1 by (simp add: listChildren_iff)
qed

text \<open>
  C3 (amended).  Let the children of \<open>par\<close> be listed as \<open>xs\<close>, all of them and \<open>par\<close>
  allocated objects.  \<^verbatim>\<open>_create_node\<close> of winfilesystem.py returns, and afterwards the
  children are listed as \<open>xs\<close> followed by the new node: the listing is in creation order.
  \<^verbatim>\<open>addChildNode\<close> of simplefilesystem.py, applied to the same new object, puts it in front
  of \<open>xs\<close>: there the listing shows the newest child first.
\<close>

theorem create_order:
  assumes ch: "listChildren h par = Some xs"
    and par: "par < nalloc h" and alloc: "\<forall>x\<in>set xs. x < nalloc h"
  shows "(\<exists>h'. create_node h nm d par t1 t2 = Some (nalloc h, h')
              \<and> listChildren h' par = Some (xs @ [nalloc h]))
       \<and> listChildren (addChildNode (snd (FileNode h nm d (Some par) t1 t2)) par (nalloc h)) par
           = Some (nalloc h # xs)"
  using create_node_appends[OF assms, of nm d t1 t2] addChildNode_prepends[OF assms, of nm d t1 t2]
  by blast

theorem create_order_witness:
  "listChildren (hp (the demo)) 1 = Some [2, 4]
   \<and> (\<exists>h'. create_node (hp (the demo)) ''n'' True 1 9 9 = Some (6, h')
             \<and> listChildren h' 1 = Some [2, 4, 6])
   \<and> listChildren (addChildNode (snd (FileNode (hp (the demo)) ''n'' True (Some 1) 9 9)) 1 6) 1
       = Some [6, 2, 4]"
proof -
  have a: "listChildren (hp (the demo)) 1 = Some [2, 4]" by code_simp
  have b: "(1::nat) < nalloc (hp (the demo))" by code_simp
  have c: "\<forall>x\<in>set [2, 4 :: nat]. x < nalloc (hp (the demo))" by code_simp
  have n: "nalloc (hp (the demo)) = 6" by code_simp
  show ?thesis using a create_order[OF a b c, of "''n''" True 9 9] by (simp add: n)
qed

text \<open>
  In simplefilesystem.py, creating the files \<^verbatim>\<open>a\<close> and then \<^verbatim>\<open>b\<close> under the root lists
  \<^verbatim>\<open>b\<close> before \<^verbatim>\<open>a\<close>.
\<close>

theorem addChildNode_newest_first:
  "Option.bind (onCreateFile Filesystem ''a'') (\<lambda>(r1, s1).
     Option.bind (onCreateFile s1 ''b'') (\<lambda>(r2, s2).
       map_option (map (name (fs_heap s2))) (listChildren (fs_heap s2) 0)))
   = Some [''b'', ''a'']"
  by code_simp

subsection \<open>Names within one directory\<close>

text \<open>
  In winfilesystem.py \<^verbatim>\<open>create_item\<close> and \<^verbatim>\<open>rename_item\<close> scan the children of the parent
  itself: a name borne by a child (by another child, for a rename) is refused, and a
  directory whose children bear pairwise distinct names keeps that property.
\<close>

lemma listChildren_cong:
  assumes "sibling_next h' = sibling_next h" and "child h' = child h"
  shows "listChildren h' p = listChildren h p"
proof -
  have e: "\<And>c xs. chain h' c xs = chain h c xs"
    by (rule chain_cong) (simp add: assms(1))
  have iff: "\<And>xs. (listChildren h' p = Some xs) = (listChildren h p = Some xs)"
    unfolding listChildren_iff e assms(2) ..
  show ?thesis
  proof (cases "listChildren h p")
    case None
    then have "\<And>xs. listChildren h' p \<noteq> Some xs" using iff by simp
    then have "listChildren h' p = None" by (cases "listChildren h' p") blast+
    with None show ?thesis by simp
  next
    case (Some xs)
    then have "listChildren h' p = Some xs" using iff by simp
    with Some show ?thesis by simp
  qed
qed

lemma open_file_heap:
  assumes "open_file s node edit now = Some (r, s')"
  shows "name (hp s') = name (hp s) \<and> listChildren (hp s') p = listChildren (hp s) p"
proof -
  from assms have "hp s' = hp s \<or> (\<exists>body. hp s' = save_content (hp s) node body now)"
    by (auto simp: open_file_def Let_def
             split: if_splits option.splits Option.bind_splits sum.splits)
  then show ?thesis
  proof
    assume "hp s' = hp s"
    then show ?thesis by simp
  next
    assume "\<exists>body. hp s' = save_content (hp s) node body now"
    then obtain body where b: "hp s' = save_content (hp s) node body now" ..
    have "listChildren (hp s') p = listChildren (hp s) p"
      by (rule listChildren_cong) (simp_all add: b save_content_def)
    then show ?thesis by (simp add: b save_content_def)
  qed
qed

lemma create_item_duplicate:
  assumes "listChildren (hp s) par = Some cs" and "ok" and "nm \<noteq> []"
    and "nm \<in> name (hp s) ` set cs"
  shows "create_item s par d nm ok edit t1 t2 now = Some (Inl FileExistsError, s)"
  using assms by (simp add: create_item_def listChildren_iff name_taken_chain)

lemma create_item_names:
  assumes c: "create_item s par d nm ok edit t1 t2 now = Some (Inr (), s')"
    and ok: "ok" "nm \<noteq> []"
    and cs: "listChildren (hp s) par = Some cs"
    and al: "par < nalloc (hp s)" "\<forall>x\<in>set cs. x < nalloc (hp s)"
  shows "nm \<notin> name (hp s) ` set cs
         \<and> listChildren (hp s') par = Some (cs @ [nalloc (hp s)])
         \<and> map (name (hp s')) (cs @ [nalloc (hp s)]) = map (name (hp s)) cs @ [nm]"
proof -
  have nt: "name_taken (hp s) (child (hp s) par) nm = Some (nm \<in> name (hp s) ` set cs)"
    using cs by (simp add: listChildren_iff name_taken_chain)
  have fresh: "nm \<notin> name (hp s) ` set cs"
    using c ok nt by (auto simp: create_item_def split: if_splits)
  obtain h1 where h1: "create_node (hp s) nm d par t1 t2 = Some (nalloc (hp s), h1)"
    and l1: "listChildren h1 par = Some (cs @ [nalloc (hp s)])"
    and n1: "name h1 = (name (hp s))(nalloc (hp s) := nm)"
    using create_node_appends[OF cs al] by blast
  have "name (hp s') = name h1 \<and> listChildren (hp s') par = listChildren h1 par"
  proof (cases d)
    case True
    with c ok nt fresh h1 have "s' = s\<lparr> hp := h1 \<rparr>" by (simp add: create_item_def)
    then show ?thesis by simp
  next
    case False
    with c ok nt fresh h1
    have "open_file (s\<lparr> hp := h1 \<rparr>) (nalloc (hp s)) edit now = Some (Inr (), s')"
      by (simp add: create_item_def)
    from open_file_heap[OF this] show ?thesis by simp
  qed
  moreover have "map (name h1) cs = map (name (hp s)) cs" using al(2) n1 by auto
  ultimately show ?thesis using fresh l1 n1 by simp
qed

lemma rename_item_result:
  assumes "parent (hp s) node = Some p" and "listChildren (hp s) p = Some cs"
    and "ok" and "new_name \<noteq> []"
  shows "rename_item s node new_name ok =
           (if \<exists>a\<in>set cs. a \<noteq> node \<and> name (hp s) a = new_name
            then Some (Inl FileExistsError, s)
            else Some (Inr (), s\<lparr> hp := (hp s)\<lparr> name := (name (hp s))(node := new_name) \<rparr> \<rparr>))"
  using assms by (simp add: rename_item_def listChildren_iff name_taken_by_other_chain)

lemma distinct_rename:
  assumes "distinct (map f cs)" and "\<forall>a\<in>set cs. a \<noteq> node \<longrightarrow> f a \<noteq> v"
  shows "distinct (map (f(node := v)) cs)"
proof -
  have "\<And>a b. a \<in> set cs \<Longrightarrow> b \<in> set cs \<Longrightarrow> (f(node := v)) a = (f(node := v)) b \<Longrightarrow> a = b"
  proof -
    fix a b assume a: "a \<in> set cs" and b: "b \<in> set cs"
      and e: "(f(node := v)) a = (f(node := v)) b"
    have inj: "inj_on f (set cs)" and dc: "distinct cs"
      using assms(1) by (simp_all add: distinct_map)
    show "a = b"
    proof (cases "a = node")
      case True
      with e assms(2) b show ?thesis by (cases "b = node") auto
    next
      case False
      with e assms(2) a have "b \<noteq> node" by auto
      with False e have "f a = f b" by simp
      with inj a b show ?thesis by (auto dest: inj_onD)
    qed
  qed
  then have "inj_on (f(node := v)) (set cs)" by (auto intro: inj_onI)
  moreover have "distinct cs" using assms(1) by (simp add: distinct_map)
  ultimately show ?thesis by (simp add: distinct_map)
qed

lemma create_item_distinct:
  assumes c: "create_item s par d nm ok edit t1 t2 now = Some (Inr (), s')"
    and cs: "listChildren (hp s) par = Some cs"
    and al: "par < nalloc (hp s)" "\<forall>x\<in>set cs. x < nalloc (hp s)"
    and dn: "distinct (map (name (hp s)) cs)"
  shows "\<exists>cs'. listChildren (hp s') par = Some cs' \<and> distinct (map (name (hp s')) cs')"
proof (cases "ok \<and> nm \<noteq> []")
  case True
  then have ok: "ok" "nm \<noteq> []" by simp_all
  from create_item_names[OF c ok cs al]
  have f: "nm \<notin> name (hp s) ` set cs"
    and l: "listChildren (hp s') par = Some (cs @ [nalloc (hp s)])"
    and n: "map (name (hp s')) (cs @ [nalloc (hp s)]) = map (name (hp s)) cs @ [nm]"
    by blast+
  have "distinct (map (name (hp s)) cs @ [nm])" using dn f by simp
  then have "distinct (map (name (hp s')) (cs @ [nalloc (hp s)]))" unfolding n .
  with l show ?thesis by blast
next
  case False
  with c have "s' = s" by (auto simp: create_item_def)
  with cs dn show ?thesis by simp
qed

lemma rename_item_distinct:
  assumes r: "rename_item s node new_name ok = Some (res, s')"
    and p: "parent (hp s) node = Some p"
    and cs: "listChildren (hp s) p = Some cs"
    and dn: "distinct (map (name (hp s)) cs)"
  shows "listChildren (hp s') p = Some cs \<and> distinct (map (name (hp s')) cs)"
proof (cases "ok \<and> new_name \<noteq> [] \<and> \<not> (\<exists>a\<in>set cs. a \<noteq> node \<and> name (hp s) a = new_name)")
  case True
  then have ok: "ok" "new_name \<noteq> []"
    and fr: "\<forall>a\<in>set cs. a \<noteq> node \<longrightarrow> name (hp s) a \<noteq> new_name" by blast+
  from fr have nf: "\<not> (\<exists>a\<in>set cs. a \<noteq> node \<and> name (hp s) a = new_name)" by blast
  have "rename_item s node new_name ok
          = Some (Inr (), s\<lparr> hp := (hp s)\<lparr> name := (name (hp s))(node := new_name) \<rparr> \<rparr>)"
    unfolding rename_item_result[OF p cs ok] using nf by (rule if_not_P)
  with r have s': "s' = s\<lparr> hp := (hp s)\<lparr> name := (name (hp s))(node := new_name) \<rparr> \<rparr>" by simp
  have "listChildren (hp s') p = listChildren (hp s) p"
    by (rule listChildren_cong) (simp_all add: s')
  moreover have "distinct (map (name (hp s')) cs)"
    using distinct_rename[OF dn fr] by (simp add: s')
  ultimately show ?thesis using cs by simp
next
  case False
  have "s' = s"
  proof (cases "ok \<and> new_name \<noteq> []")
    case True
    then have ok: "ok" "new_name \<noteq> []" by simp_all
    from False True have "\<exists>a\<in>set cs. a \<noteq> node \<and> name (hp s) a = new_name" by simp
    then have "rename_item s node new_name ok = Some (Inl FileExistsError, s)"
      unfolding rename_item_result[OF p cs ok] by (rule if_P)
    with r show ?thesis by simp
  next
    case False
    with r show ?thesis by (auto simp: rename_item_def)
  qed
  with cs dn show ?thesis by simp
qed

text \<open>
  C4.  In simplefilesystem.py the current node is \<^verbatim>\<open>d\<close>, which already holds a file \<^verbatim>\<open>x\<close>.
  Entering \<^verbatim>\<open>x\<close> again creates a second \<^verbatim>\<open>x\<close> in \<^verbatim>\<open>d\<close>: \<^verbatim>\<open>findNode(path)\<close> looks the name up
  from the root, not in \<^verbatim>\<open>current_node\<close>.  Entering \<^verbatim>\<open>d/x\<close> is refused.
\<close>

theorem onCreateFile_duplicate:
  "Option.bind simple_demo (\<lambda>s. map_option
     (\<lambda>(r, s'). (r, map_option (map (name (fs_heap s'))) (listChildren (fs_heap s') 1)))
     (onCreateFile s ''x''))
   = Some (Inr (), Some [''x'', ''x''])
   \<and> Option.bind simple_demo (\<lambda>s. map_option fst (onCreateFile s ''d/x'')) = Some (Inl AlreadyExists)"
  by code_simp

subsection \<open>Saving content\<close>





subsection \<open>Failures leave the state alone\<close>












subsection \<open>The root\<close>

text \<open>
  C8 (amended).  In winfilesystem.py \<^verbatim>\<open>delete_item\<close> on the root is refused with the
  message for the root and leaves the state as it is.  \<^verbatim>\<open>rename_item\<close> on the root (which
  has no parent) never changes the state either: a confirmed, non-empty name ends in the
  \<^verbatim>\<open>AttributeError\<close> of \<^verbatim>\<open>node.parent.child\<close>, anything else in the early return.
\<close>

theorem root_is_kept:
  "delete_item s (root s) reply = Some (Inl CannotDeleteRoot, s)
   \<and> (parent (hp s) (root s) = None \<longrightarrow>
        (\<exists>r. rename_item s (root s) new_name ok = Some (r, s))
        \<and> (ok \<and> new_name \<noteq> [] \<longrightarrow>
             rename_item s (root s) new_name ok = Some (Inl AttributeError, s)))"
  by (simp add: delete_item_def rename_item_def)

theorem root_is_kept_witness:
  "parent (hp (the demo)) (root (the demo)) = None
   \<and> delete_item (the demo) (root (the demo)) True = Some (Inl CannotDeleteRoot, the demo)
   \<and> rename_item (the demo) (root (the demo)) ''top'' True = Some (Inl AttributeError, the demo)"
proof -
  have a: "parent (hp (the demo)) (root (the demo)) = None" by code_simp
  show ?thesis using a root_is_kept[of "the demo" True "''top''" True] by simp
qed

text \<open>
  In simplefilesystem.py, deleting the root (selected, confirmation answered Yes) raises
  nothing and empties the root: its child \<^verbatim>\<open>d\<close> is unlinked.
\<close>

theorem simple_deleteNode_root:
  "Option.bind simple_demo (\<lambda>s. map_option
     (\<lambda>s'. (listChildren (fs_heap s) (fs_root s), listChildren (fs_heap s') (fs_root s')))
     (onDelete s (fs_root s) True))
   = Some (Some [1], Some [])"
  by code_simp

subsection \<open>Path resolution\<close>

lemma split_slash_nonempty: "split_slash p \<noteq> []"
  by (induction p) auto

lemma split_slash_append: "split_slash (p @ CHR ''/'' # q) = split_slash p @ split_slash q"
  by (induction p) (auto simp: split_slash_nonempty)

lemma split_slash_plain: "CHR ''/'' \<notin> set x \<Longrightarrow> split_slash x = [x]"
  by (induction x) auto

lemma walk_parts_append:
  "walk_parts h path cur (ps @ qs) =
     (case walk_parts h path cur ps of
        None \<Rightarrow> None
      | Some (Inl e) \<Rightarrow> Some (Inl e)
      | Some (Inr n) \<Rightarrow> walk_parts h path n qs)"
proof (induction ps arbitrary: cur)
  case Nil
  show ?case by simp
next
  case (Cons p ps)
  show ?case
    by (cases "find_child h (child h cur) p")
       (auto simp: Cons.IH split: option.splits sum.splits)
qed

lemma walk_parts_payload:
  "walk_parts h path cur ps = Some (Inr n) \<Longrightarrow> walk_parts h path' cur ps = Some (Inr n)"
proof (induction ps arbitrary: cur)
  case Nil
  then show ?case by simp
next
  case (Cons p ps)
  show ?case
  proof (cases "p = ''.'' \<or> p = ''..''")
    case True
    with Cons show ?thesis by auto
  next
    case False
    show ?thesis
    proof (cases "find_child h (child h cur) p")
      case None
      with Cons.prems False show ?thesis by simp
    next
      case (Some found)
      show ?thesis
      proof (cases found)
        case None
        with Cons.prems False Some show ?thesis by simp
      next
        case (Some m)
        with Cons.prems False \<open>find_child h (child h cur) p = Some found\<close>
        have "walk_parts h path m ps = Some (Inr n)" by simp
        then have "walk_parts h path' m ps = Some (Inr n)" by (rule Cons.IH)
        with False Some \<open>find_child h (child h cur) p = Some found\<close> show ?thesis by simp
      qed
    qed
  qed
qed

lemma find_child_parent_aux:
  assumes r: "find_child h c nm = Some res"
  shows "links_ok h \<longrightarrow> (\<forall>x. c = Some x \<longrightarrow> x < nalloc h \<and> parent h x = Some m)
         \<longrightarrow> (\<forall>n. res = Some n \<longrightarrow> n < nalloc h \<and> parent h n = Some m \<and> name h n = nm)"
proof (rule find_child.raw_induct[where
        P = "\<lambda>h c nm res. links_ok h \<longrightarrow>
              (\<forall>x. c = Some x \<longrightarrow> x < nalloc h \<and> parent h x = Some m)
              \<longrightarrow> (\<forall>n. res = Some n \<longrightarrow> n < nalloc h \<and> parent h n = Some m \<and> name h n = nm)",
        OF _ r])
  fix fc h c nm res
  assume ih: "\<And>h c nm res. fc h c nm = Some res \<Longrightarrow>
                links_ok h \<longrightarrow> (\<forall>x. c = Some x \<longrightarrow> x < nalloc h \<and> parent h x = Some m)
                \<longrightarrow> (\<forall>n. res = Some n \<longrightarrow> n < nalloc h \<and> parent h n = Some m \<and> name h n = nm)"
    and eq: "(case c of None \<Rightarrow> Some None
              | Some a \<Rightarrow> if name h a = nm then Some (Some a) else fc h (sibling_next h a) nm)
             = Some res"
  show "links_ok h \<longrightarrow> (\<forall>x. c = Some x \<longrightarrow> x < nalloc h \<and> parent h x = Some m)
        \<longrightarrow> (\<forall>n. res = Some n \<longrightarrow> n < nalloc h \<and> parent h n = Some m \<and> name h n = nm)"
  proof (intro impI allI)
    fix n
    assume ok: "links_ok h"
      and c: "\<forall>x. c = Some x \<longrightarrow> x < nalloc h \<and> parent h x = Some m"
      and res: "res = Some n"
    show "n < nalloc h \<and> parent h n = Some m \<and> name h n = nm"
    proof (cases c)
      case None
      with eq res show ?thesis by simp
    next
      case (Some a)
      show ?thesis
      proof (cases "name h a = nm")
        case True
        with eq Some res c show ?thesis by auto
      next
        case False
        with eq Some have "fc h (sibling_next h a) nm = Some res" by simp
        moreover have "\<forall>x. sibling_next h a = Some x \<longrightarrow> x < nalloc h \<and> parent h x = Some m"
          using links_okD(2)[OF ok, of a] c Some by auto
        ultimately show ?thesis using ih ok res by blast
      qed
    qed
  qed
qed

lemma find_child_parent:
  assumes ok: "links_ok h" and m: "m < nalloc h"
    and f: "find_child h (child h m) nm = Some (Some n)"
  shows "n < nalloc h \<and> parent h n = Some m \<and> name h n = nm"
proof -
  have c: "\<forall>x. child h m = Some x \<longrightarrow> x < nalloc h \<and> parent h x = Some m"
    using links_okD(1)[OF ok m] by blast
  from find_child_parent_aux[OF f, of m] ok c show ?thesis by blast
qed


lemma walk_parts_alloc:
  assumes ok: "links_ok h"
  shows "cur < nalloc h \<Longrightarrow> walk_parts h path cur ps = Some (Inr m) \<Longrightarrow> m < nalloc h"
proof (induction ps arbitrary: cur)
  case Nil
  then show ?case by simp
next
  case (Cons p ps)
  show ?case
  proof (cases "p = ''.''")
    case True
    with Cons show ?thesis by simp
  next
    case notdot: False
    show ?thesis
    proof (cases "p = ''..''")
      case True
      let ?up = "case parent h cur of None \<Rightarrow> cur | Some q \<Rightarrow> q"
      have "?up < nalloc h"
        using Cons.prems(1) links_okD(3)[OF ok Cons.prems(1)] by (cases "parent h cur") auto
      moreover have "walk_parts h path ?up ps = Some (Inr m)"
        using Cons.prems(2) True by simp
      ultimately show ?thesis by (rule Cons.IH)
    next
      case False
      with notdot Cons.prems(2) obtain c where
        f: "find_child h (child h cur) p = Some (Some c)" and w: "walk_parts h path c ps = Some (Inr m)"
        by (auto split: Option.bind_splits option.splits)
      from find_child_parent[OF ok Cons.prems(1) f] have "c < nalloc h" by simp
      then show ?thesis using w by (rule Cons.IH)
    qed
  qed
qed

lemma walk_parts_step:
  assumes "part \<noteq> ''.''" and "part \<noteq> ''..''" and "listChildren h cur = Some cs"
  shows "walk_parts h path cur (part # parts) =
           (case find (\<lambda>a. name h a = part) cs of
              None \<Rightarrow> Some (Inl (FileNotFoundError path))
            | Some c \<Rightarrow> walk_parts h path c parts)"
proof -
  have "find_child h (child h cur) part = Some (find (\<lambda>a. name h a = part) cs)"
    using assms(3) by (simp add: listChildren_iff find_child_chain)
  with assms(1,2) show ?thesis by simp
qed

lemma parts_snoc:
  assumes "plain b"
  shows "filter (\<lambda>x. x \<noteq> []) (split_slash (P @ ''/'' @ b)) = filter (\<lambda>x. x \<noteq> []) (split_slash P) @ [b]"
    and "filter (\<lambda>x. x \<noteq> []) (split_slash (P @ ''/'' @ b @ ''/..''))
           = filter (\<lambda>x. x \<noteq> []) (split_slash P) @ [b, ''..'']"
proof -
  have b: "CHR ''/'' \<notin> set b" "b \<noteq> []" using assms by (auto simp: plain_def)
  have 1: "split_slash (P @ ''/'' @ b) = split_slash P @ [b]"
    using split_slash_append[of P b] split_slash_plain[OF b(1)] by simp
  have "split_slash (b @ ''/..'') = [b, ''..'']"
    using split_slash_append[of b "''..''"] split_slash_plain[OF b(1)] by simp
  then have 2: "split_slash (P @ ''/'' @ b @ ''/..'') = split_slash P @ [b, ''..'']"
    using split_slash_append[of P "b @ ''/..''"] by simp
  show "filter (\<lambda>x. x \<noteq> []) (split_slash (P @ ''/'' @ b)) = filter (\<lambda>x. x \<noteq> []) (split_slash P) @ [b]"
    using 1 b(2) by simp
  show "filter (\<lambda>x. x \<noteq> []) (split_slash (P @ ''/'' @ b @ ''/..''))
           = filter (\<lambda>x. x \<noteq> []) (split_slash P) @ [b, ''..'']"
    using 2 b(2) by simp
qed

lemma resolve_path_parent:
  assumes ok: "links_ok (hp s)" and r: "root s < nalloc (hp s)" and c: "current s < nalloc (hp s)"
    and p: "p \<noteq> []" and b: "plain b"
    and res: "resolve_path s (p @ ''/'' @ b) = Some (Inr n)"
  shows "resolve_path s (p @ ''/'' @ b @ ''/..'') = resolve_path s p
         \<and> (\<exists>m. resolve_path s p = Some (Inr m) \<and> parent (hp s) n = Some m)"
proof -
  let ?h = "hp s"
  define P where "P = (if p \<noteq> [] \<and> hd p = CHR ''~'' then ''/Home'' @ tl p else p)"
  define st where "st = (if P \<noteq> [] \<and> hd P = CHR ''/'' then root s else current s)"
  define ps where "ps = filter (\<lambda>x. x \<noteq> []) (split_slash P)"
  have Pne: "P \<noteq> []" using p by (auto simp: P_def)
  have ex: "\<And>q. (if p @ q \<noteq> [] \<and> hd (p @ q) = CHR ''~'' then ''/Home'' @ tl (p @ q) else p @ q) = P @ q"
    using p by (auto simp: P_def)
  have hdP: "\<And>q. hd (P @ q) = hd P" using Pne by simp
  have r0: "resolve_path s p = walk_parts ?h P st ps"
    by (simp add: resolve_path_def P_def st_def ps_def Let_def)
  have r1: "resolve_path s (p @ ''/'' @ b) = walk_parts ?h (P @ ''/'' @ b) st (ps @ [b])"
    unfolding resolve_path_def Let_def ex st_def ps_def
    using parts_snoc(1)[OF b, of P] Pne hdP by simp
  have r2: "resolve_path s (p @ ''/'' @ b @ ''/..'')
              = walk_parts ?h (P @ ''/'' @ b @ ''/..'') st (ps @ [b, ''..''])"
    unfolding resolve_path_def Let_def ex st_def ps_def
    using parts_snoc(2)[OF b, of P] Pne hdP by simp
  have stn: "st < nalloc ?h" using r c by (simp add: st_def)
  from res r1 have "walk_parts ?h (P @ ''/'' @ b) st (ps @ [b]) = Some (Inr n)" by simp
  then obtain m where m: "walk_parts ?h (P @ ''/'' @ b) st ps = Some (Inr m)"
    and mb: "walk_parts ?h (P @ ''/'' @ b) m [b] = Some (Inr n)"
    by (auto simp: walk_parts_append split: option.splits sum.splits)
  have bd: "b \<noteq> ''.''" "b \<noteq> ''..''" using b by (auto simp: plain_def)
  from mb bd have f: "find_child ?h (child ?h m) b = Some (Some n)"
    by (auto split: Option.bind_splits option.splits)
  have malloc: "m < nalloc ?h" using walk_parts_alloc[OF ok stn m] .
  from find_child_parent[OF ok malloc f] have pn: "parent ?h n = Some m" by simp
  have w0: "walk_parts ?h P st ps = Some (Inr m)" using m by (rule walk_parts_payload)
  have w2: "walk_parts ?h (P @ ''/'' @ b @ ''/..'') st ps = Some (Inr m)"
    using m by (rule walk_parts_payload)
  have "walk_parts ?h (P @ ''/'' @ b @ ''/..'') m [b, ''..''] = Some (Inr m)"
    using bd f pn by simp
  with w2 have "walk_parts ?h (P @ ''/'' @ b @ ''/..'') st (ps @ [b, ''..'']) = Some (Inr m)"
    by (simp add: walk_parts_append)
  with r2 r0 w0 pn show ?thesis by simp
qed


text \<open>
  C7 (amended), for \<^verbatim>\<open>resolve_path\<close> of winfilesystem.py.  A leading \<^verbatim>\<open>~\<close> is replaced by
  \<^verbatim>\<open>/Home\<close>; the path is split at the slashes and the empty segments are dropped; the walk
  starts at the root when the path begins with a slash and at the current node otherwise.
  A \<^verbatim>\<open>.\<close> segment leaves the running node, a \<^verbatim>\<open>..\<close> segment moves to its parent when it has
  one and stays otherwise.  Any other segment moves to the first child bearing that name;
  when there is none, resolution fails with \<^verbatim>\<open>FileNotFoundError\<close>, and the path it carries is
  the path after the \<^verbatim>\<open>~\<close> replacement.  On a tree whose links are consistent: when \<open>p/b\<close>
  resolves, for a non-empty \<open>p\<close> and a name \<open>b\<close>, then \<open>p/b/..\<close> and \<open>p\<close> resolve to the same
  node, the parent of the node of \<open>p/b\<close>; with \<open>p = /a\<close> this is
  \<open>resolve("/a/b/..") = resolve("/a")\<close>.
\<close>

theorem resolve_path_segments:
  "resolve_path s path0 =
     walk_parts (hp s)
       (if path0 \<noteq> [] \<and> hd path0 = CHR ''~'' then ''/Home'' @ tl path0 else path0)
       (if (if path0 \<noteq> [] \<and> hd path0 = CHR ''~'' then ''/Home'' @ tl path0 else path0) \<noteq> []
           \<and> hd (if path0 \<noteq> [] \<and> hd path0 = CHR ''~'' then ''/Home'' @ tl path0 else path0) = CHR ''/''
        then root s else current s)
       (filter (\<lambda>x. x \<noteq> [])
          (split_slash (if path0 \<noteq> [] \<and> hd path0 = CHR ''~'' then ''/Home'' @ tl path0 else path0)))
   \<and> walk_parts h path cur (''.'' # parts) = walk_parts h path cur parts
   \<and> walk_parts h path cur (''..'' # parts)
       = walk_parts h path (case parent h cur of None \<Rightarrow> cur | Some q \<Rightarrow> q) parts
   \<and> (part \<noteq> ''.'' \<and> part \<noteq> ''..'' \<and> listChildren h cur = Some cs \<longrightarrow>
        walk_parts h path cur (part # parts) =
          (case find (\<lambda>a. name h a = part) cs of
             None \<Rightarrow> Some (Inl (FileNotFoundError path))
           | Some c \<Rightarrow> walk_parts h path c parts))
   \<and> (links_ok (hp s) \<and> root s < nalloc (hp s) \<and> current s < nalloc (hp s)
        \<and> p \<noteq> [] \<and> plain b \<and> resolve_path s (p @ ''/'' @ b) = Some (Inr n) \<longrightarrow>
        resolve_path s (p @ ''/'' @ b @ ''/..'') = resolve_path s p
        \<and> (\<exists>m. resolve_path s p = Some (Inr m) \<and> parent (hp s) n = Some m))"
proof (intro conjI impI)
  show "resolve_path s path0 =
     walk_parts (hp s)
       (if path0 \<noteq> [] \<and> hd path0 = CHR ''~'' then ''/Home'' @ tl path0 else path0)
       (if (if path0 \<noteq> [] \<and> hd path0 = CHR ''~'' then ''/Home'' @ tl path0 else path0) \<noteq> []
           \<and> hd (if path0 \<noteq> [] \<and> hd path0 = CHR ''~'' then ''/Home'' @ tl path0 else path0) = CHR ''/''
        then root s else current s)
       (filter (\<lambda>x. x \<noteq> [])
          (split_slash (if path0 \<noteq> [] \<and> hd path0 = CHR ''~'' then ''/Home'' @ tl path0 else path0)))"
    by (simp only: resolve_path_def Let_def)
  show "walk_parts h path cur (''.'' # parts) = walk_parts h path cur parts" by simp
  show "walk_parts h path cur (''..'' # parts)
       = walk_parts h path (case parent h cur of None \<Rightarrow> cur | Some q \<Rightarrow> q) parts" by simp
next
  assume "part \<noteq> ''.'' \<and> part \<noteq> ''..'' \<and> listChildren h cur = Some cs"
  then show "walk_parts h path cur (part # parts) =
          (case find (\<lambda>a. name h a = part) cs of
             None \<Rightarrow> Some (Inl (FileNotFoundError path))
           | Some c \<Rightarrow> walk_parts h path c parts)"
    using walk_parts_step by blast
next
  assume a: "links_ok (hp s) \<and> root s < nalloc (hp s) \<and> current s < nalloc (hp s)
        \<and> p \<noteq> [] \<and> plain b \<and> resolve_path s (p @ ''/'' @ b) = Some (Inr n)"
  then have r: "resolve_path s (p @ ''/'' @ b @ ''/..'') = resolve_path s p
         \<and> (\<exists>m. resolve_path s p = Some (Inr m) \<and> parent (hp s) n = Some m)"
    by (intro resolve_path_parent) simp_all
  from r show "resolve_path s (p @ ''/'' @ b @ ''/..'') = resolve_path s p" by simp
  from r show "\<exists>m. resolve_path s p = Some (Inr m) \<and> parent (hp s) n = Some m" by simp
qed

theorem resolve_path_segments_witness:
  "links_ok (hp (the demo)) \<and> plain ''e''
   \<and> resolve_path (the demo) ''/ROOT/d/e'' = Some (Inr 3)
   \<and> resolve_path (the demo) ''/ROOT/d/e/..'' = resolve_path (the demo) ''/ROOT/d''
   \<and> resolve_path (the demo) ''/ROOT/d'' = Some (Inr 2)
   \<and> listChildren (hp (the demo)) 1 = Some [2, 4]
   \<and> walk_parts (hp (the demo)) ''/ROOT/f'' 1 [''f''] = Some (Inr 4)
   \<and> walk_parts (hp (the demo)) ''/ROOT/z'' 1 [''z''] = Some (Inl (FileNotFoundError ''/ROOT/z''))"
proof -
  have ok: "links_ok (hp (the demo))" by code_simp
  have al: "root (the demo) < nalloc (hp (the demo)) \<and> current (the demo) < nalloc (hp (the demo))"
    by code_simp
  have pl: "plain ''e''" by code_simp
  have r: "resolve_path (the demo) (''/ROOT/d'' @ ''/'' @ ''e'') = Some (Inr 3)" by code_simp
  have r2: "resolve_path (the demo) ''/ROOT/d'' = Some (Inr 2)" by code_simp
  have cs: "listChildren (hp (the demo)) 1 = Some [2, 4]" by code_simp
  have nm: "find (\<lambda>a. name (hp (the demo)) a = ''f'') [2, 4] = Some 4
            \<and> find (\<lambda>a. name (hp (the demo)) a = ''z'') [2, 4] = None" by code_simp
  note w = resolve_path_segments[where s = "the demo" and p = "''/ROOT/d''" and b = "''e''" and n = 3
      and h = "hp (the demo)" and cur = 1 and cs = "[2, 4]" and part = "''f''" and parts = "[]"
      and path = "''/ROOT/f''"]
    resolve_path_segments[where h = "hp (the demo)" and cur = 1 and cs = "[2, 4]" and part = "''z''"
      and parts = "[]" and path = "''/ROOT/z''"]
  show ?thesis using ok al pl r r2 cs nm w by simp
qed

text \<open>
  \<^verbatim>\<open>resolve_path("~x")\<close> fails with a message that carries \<^verbatim>\<open>/Homex\<close>, not the path it was
  given.  In simplefilesystem.py \<^verbatim>\<open>/d/x\<close> resolves, \<^verbatim>\<open>/d/x/..\<close> does not (\<^verbatim>\<open>..\<close> is looked up
  as a child name and \<^verbatim>\<open>findNode\<close> returns \<^verbatim>\<open>None\<close>), while \<^verbatim>\<open>/d\<close> resolves to \<^verbatim>\<open>d\<close>.
\<close>

theorem resolve_path_counterexample:
  "Option.bind demo (\<lambda>s. resolve_path s ''~x'') = Some (Inl (FileNotFoundError ''/Homex''))
   \<and> Option.bind simple_demo (\<lambda>s. findNode s ''/d/x'') = Some (Some 2)
   \<and> Option.bind simple_demo (\<lambda>s. findNode s ''/d/x/..'') = Some None
   \<and> Option.bind simple_demo (\<lambda>s. findNode s ''/d'') = Some (Some 1)"
  by code_simp

subsection \<open>The path of a node resolves to the node\<close>

lemma path_names_descends:
  "descends h a ns \<Longrightarrow>
   path_names h (last (a # ns)) acc = path_names h a (acc @ rev (map (name h) ns))"
proof (induction ns arbitrary: a acc)
  case Nil
  then show ?case by simp
next
  case (Cons n ns)
  then have p: "parent h n = Some a" and d: "descends h n ns" by simp_all
  have "path_names h (last (a # n # ns)) acc = path_names h (last (n # ns)) acc" by simp
  also have "\<dots> = path_names h n (acc @ rev (map (name h) ns))" using Cons.IH[OF d] .
  also have "\<dots> = path_names h a ((acc @ rev (map (name h) ns)) @ [name h n])"
    using p by (subst path_names.simps) simp
  finally show ?case by simp
qed

lemma full_path_descends:
  assumes "parent h r = None" and "descends h r ns"
  shows "full_path h (last (r # ns)) =
           Some (if ns \<noteq> [] then CHR ''/'' # join_slash (map (name h) ns) else ''/'')"
proof -
  have "path_names h r (rev (map (name h) ns)) = Some (rev (map (name h) ns))"
    using assms(1) by (subst path_names.simps) simp
  then have "path_names h (last (r # ns)) [] = Some (rev (map (name h) ns))"
    using path_names_descends[OF assms(2), of "[]"] by simp
  then show ?thesis by (simp add: full_path_def rev_map[symmetric])
qed

lemma split_join:
  "names \<noteq> [] \<Longrightarrow> \<forall>x\<in>set names. CHR ''/'' \<notin> set x \<Longrightarrow> split_slash (join_slash names) = names"
proof (induction names rule: join_slash.induct)
  case 1
  then show ?case by simp
next
  case (2 x)
  then show ?case by (simp add: split_slash_plain)
next
  case (3 x y ys)
  then show ?case using split_slash_append[of x "join_slash (y # ys)"]
    by (simp add: split_slash_plain)
qed

lemma find_distinct:
  "distinct (map f cs) \<Longrightarrow> n \<in> set cs \<Longrightarrow> find (\<lambda>x. f x = f n) cs = Some n"
  by (induction cs) (auto simp: image_iff)

lemma walk_parts_descends:
  assumes "\<forall>n\<in>set ns. plain (name h n)"
  shows "descends h a ns \<Longrightarrow> walk_parts h path a (map (name h) ns) = Some (Inr (last (a # ns)))"
  using assms
proof (induction ns arbitrary: a)
  case Nil
  then show ?case by simp
next
  case (Cons n ns)
  from Cons.prems(1) obtain cs where cs: "listChildren h a = Some cs" "n \<in> set cs"
      "distinct (map (name h) cs)" and d: "descends h n ns"
    by (auto split: option.splits)
  have pl: "name h n \<noteq> ''.''" "name h n \<noteq> ''..''" using Cons.prems(2) by (auto simp: plain_def)
  have "walk_parts h path a (name h n # map (name h) ns) = walk_parts h path n (map (name h) ns)"
    using walk_parts_step[OF pl cs(1)] find_distinct[OF cs(3) cs(2)] by simp
  also have "\<dots> = Some (Inr (last (n # ns)))" using Cons.IH[OF d] Cons.prems(2) by simp
  finally show ?case by simp
qed

text \<open>
  C10.  Let the root have no parent, let the nodes \<open>ns\<close> lead downwards from the root (each a
  listed child of the one before, in a directory whose names are pairwise distinct), and let
  every name on the way be non-empty, different from \<^verbatim>\<open>.\<close> and \<^verbatim>\<open>..\<close> and free of slashes.
  Then \<^verbatim>\<open>full_path\<close> of the last node returns, and \<^verbatim>\<open>resolve_path\<close> of the string it returns
  is that node.  With no nodes at all this is the root, whose path is \<^verbatim>\<open>/\<close>.
\<close>

theorem full_path_resolves:
  assumes r: "parent (hp s) (root s) = None" and d: "descends (hp s) (root s) ns"
    and pl: "\<forall>n\<in>set ns. plain (name (hp s) n)"
  shows "\<exists>p. full_path (hp s) (last (root s # ns)) = Some p
             \<and> resolve_path s p = Some (Inr (last (root s # ns)))"
proof -
  let ?h = "hp s" and ?names = "map (name (hp s)) ns"
  let ?p = "if ns \<noteq> [] then CHR ''/'' # join_slash ?names else ''/''"
  have fp: "full_path ?h (last (root s # ns)) = Some ?p" using full_path_descends[OF r d] .
  have parts: "filter (\<lambda>x. x \<noteq> []) (split_slash ?p) = ?names"
  proof (cases ns)
    case Nil
    then show ?thesis by simp
  next
    case (Cons n ms)
    have "\<forall>x\<in>set ?names. CHR ''/'' \<notin> set x \<and> x \<noteq> []" using pl by (auto simp: plain_def)
    moreover from this have "split_slash (join_slash ?names) = ?names"
      using Cons by (intro split_join) auto
    ultimately show ?thesis using Cons by (auto simp: filter_id_conv)
  qed
  have "resolve_path s ?p = walk_parts ?h ?p (root s) (filter (\<lambda>x. x \<noteq> []) (split_slash ?p))"
    by (simp add: resolve_path_def Let_def)
  also have "\<dots> = Some (Inr (last (root s # ns)))"
    unfolding parts using walk_parts_descends[OF pl d] .
  finally show ?thesis using fp by blast
qed

theorem full_path_resolves_witness:
  "parent (hp (the demo)) (root (the demo)) = None
   \<and> descends (hp (the demo)) (root (the demo)) [1, 4, 5]
   \<and> full_path (hp (the demo)) 5 = Some ''/ROOT/f/g''
   \<and> resolve_path (the demo) ''/ROOT/f/g'' = Some (Inr 5)
   \<and> full_path (hp (the demo)) (root (the demo)) = Some ''/''
   \<and> resolve_path (the demo) ''/'' = Some (Inr (root (the demo)))"
proof -
  have r: "parent (hp (the demo)) (root (the demo)) = None" by code_simp
  have d: "descends (hp (the demo)) (root (the demo)) [1, 4, 5]" by code_simp
  have pl: "\<forall>n\<in>set [1, 4, 5]. plain (name (hp (the demo)) n)" by code_simp
  have d0: "descends (hp (the demo)) (root (the demo)) []" by simp
  have f: "full_path (hp (the demo)) 5 = Some ''/ROOT/f/g''" by code_simp
  have f0: "full_path (hp (the demo)) (root (the demo)) = Some ''/''" by code_simp
  from full_path_resolves[OF r d pl] f
  have 1: "resolve_path (the demo) ''/ROOT/f/g'' = Some (Inr 5)" by simp
  from full_path_resolves[OF r d0] f0
  have 2: "resolve_path (the demo) ''/'' = Some (Inr (root (the demo)))" by simp
  show ?thesis using r d f f0 1 2 by simp
qed

subsection \<open>Deleting a subtree\<close>

lemma dchain_chain: "dchain h prv c xs \<Longrightarrow> chain h c xs"
  by (induction xs arbitrary: prv c) auto

lemma dchain_cong:
  "(\<And>x. x \<in> set xs \<Longrightarrow> sibling_prev h' x = sibling_prev h x \<and> sibling_next h' x = sibling_next h x)
   \<Longrightarrow> dchain h' prv c xs = dchain h prv c xs"
  by (induction xs arbitrary: prv c) auto

lemma root_in_nodes: "root_of t \<in> set (nodes t)"
  by (cases t) simp

lemma nodes_Cons: "nodes t = root_of t # tl (nodes t)"
  by (cases t) simp

lemma wf_tree_cong:
  "(\<And>a. a \<in> set (nodes t) \<Longrightarrow> child h' a = child h a) \<Longrightarrow>
   (\<And>a. a \<in> set (tl (nodes t)) \<Longrightarrow>
      parent h' a = parent h a \<and> sibling_prev h' a = sibling_prev h a
      \<and> sibling_next h' a = sibling_next h a) \<Longrightarrow>
   wf_tree h' t = wf_tree h t"
proof (induction t)
  case (Rose a ts)
  have roots: "\<And>u. u \<in> set ts \<Longrightarrow> root_of u \<in> set (concat (map nodes ts))"
    using root_in_nodes by auto
  have sub: "\<And>u x. u \<in> set ts \<Longrightarrow> x \<in> set (nodes u) \<Longrightarrow> x \<in> set (concat (map nodes ts))"
    by auto
  have 1: "dchain h' None (child h' a) (map root_of ts) = dchain h None (child h a) (map root_of ts)"
  proof -
    have "child h' a = child h a" using Rose.prems(1) by simp
    moreover have "dchain h' None (child h a) (map root_of ts) = dchain h None (child h a) (map root_of ts)"
      using Rose.prems(2) roots by (intro dchain_cong) auto
    ultimately show ?thesis by simp
  qed
  have 2: "\<And>u. u \<in> set ts \<Longrightarrow> wf_tree h' u = wf_tree h u"
  proof -
    fix u assume u: "u \<in> set ts"
    show "wf_tree h' u = wf_tree h u"
    proof (rule Rose.IH[OF u])
      fix x assume "x \<in> set (nodes u)"
      then show "child h' x = child h x" using Rose.prems(1) sub[OF u] by simp
    next
      fix x assume "x \<in> set (tl (nodes u))"
      then have "x \<in> set (nodes u)" by (metis list.set_sel(2) tl_Nil)
      then show "parent h' x = parent h x \<and> sibling_prev h' x = sibling_prev h x
                 \<and> sibling_next h' x = sibling_next h x"
        using Rose.prems(2) sub[OF u] by simp
    qed
  qed
  have 3: "\<And>u. u \<in> set ts \<Longrightarrow> parent h' (root_of u) = parent h (root_of u)"
    using Rose.prems(2) roots by simp
  show ?case using 1 2 3 by auto
qed

lemma delete_rec_node:
  "delete_rec s (DeleteNode node pidx) =
     Option.bind (delete_rec s (DeleteLoop (child (hp s) node) pidx)) (\<lambda>s1.
       map_option snd (remove_node s1 pidx node))"
  by (subst delete_rec.simps) simp

lemma delete_rec_done: "delete_rec s (DeleteLoop None pidx) = Some s"
  by (subst delete_rec.simps) simp

lemma delete_rec_loop:
  "delete_rec s (DeleteLoop (Some c1) pidx) =
     Option.bind (index s 0 0 pidx) (\<lambda>cidx.
       Option.bind (delete_rec s (DeleteNode c1 cidx)) (\<lambda>s1.
         delete_rec s1 (DeleteLoop (sibling_next (hp s) c1) pidx)))"
  by (subst delete_rec.simps) simp

lemma index_head:
  assumes "child (hp s) par = Some n" and "chain (hp s) (sibling_next (hp s) n) sibs"
  shows "index s 0 0 (QIndex r 0 par) = Some (QIndex 0 0 n)"
proof -
  have "chain (hp s) (child (hp s) par) (n # sibs)" using assms by simp
  then have "count_from (hp s) (child (hp s) par) 0 = Some (0 + length (n # sibs))"
    by (rule count_from_chain)
  then show ?thesis using assms(1) by (simp add: index_def hasIndex_def columnCount_def)
qed

lemma remove_node_head:
  assumes "child (hp s) par = Some n"
  shows "remove_node s (QIndex r 0 par) n
           = Some (True, s\<lparr> hp := unlink (hp s) par n, removed := removed s @ [n] \<rparr>)"
proof -
  have "find_row (hp s) n (Some n) = Some (Some n)" by (subst find_row.simps) simp
  then show ?thesis using assms by (simp add: remove_node_def)
qed


lemma cleared_empty: "child h n = None \<Longrightarrow> cleared h n {} = h"
  by (rule heap.equality) (auto simp: cleared_def fun_eq_iff)

lemma cleared_wipe:
  assumes "n \<notin> S1" and "\<And>a. sibling_next h c1 = Some a \<Longrightarrow> a \<in> S2"
  shows "cleared (wipe h n c1 S1) n S2 = cleared h n (S1 \<union> S2)"
  using assms by (intro heap.equality) (auto simp: cleared_def wipe_def fun_eq_iff)

lemma unlink_cleared:
  assumes "child h par = Some n" and "par \<noteq> n" and "par \<notin> S" and "n \<notin> S"
    and "sibling_prev h n = None"
  shows "unlink (cleared h n S) par n = wipe h par n (insert n S)"
  using assms
  by (intro heap.equality)
     (auto simp: cleared_def wipe_def unlink_def Let_def fun_eq_iff split: option.splits)


lemma chain_wipe:
  assumes "set xs \<inter> S = {}"
  shows "chain (wipe h par node S) c xs = chain h c xs"
  using assms by (intro chain_cong) (auto simp: wipe_def)

lemma delete_loop:
  assumes IH: "\<And>t s par r sibs. t \<in> set ts \<Longrightarrow> heads (hp s) t par sibs \<Longrightarrow>
      delete_rec s (DeleteNode (root_of t) (QIndex r 0 par))
        = Some (s\<lparr> hp := wipe (hp s) par (root_of t) (set (nodes t)),
                    removed := removed s @ postorder t \<rparr>)"
  shows "set us \<subseteq> set ts \<Longrightarrow>
         dchain (hp s) None (child (hp s) n) (map root_of us) \<Longrightarrow>
         \<forall>t\<in>set us. wf_tree (hp s) t \<Longrightarrow>
         distinct (concat (map nodes us)) \<Longrightarrow>
         n \<notin> set (concat (map nodes us)) \<Longrightarrow>
         child (hp s) par = Some n \<Longrightarrow> par \<noteq> n \<Longrightarrow>
         chain (hp s) (sibling_next (hp s) n) sibs \<Longrightarrow>
         par \<notin> set (concat (map nodes us)) \<Longrightarrow>
         set sibs \<inter> set (concat (map nodes us)) = {} \<Longrightarrow>
         delete_rec s (DeleteLoop (child (hp s) n) (QIndex r 0 par))
           = Some (s\<lparr> hp := cleared (hp s) n (set (concat (map nodes us))),
                       removed := removed s @ concat (map postorder us) \<rparr>)"
proof (induction us arbitrary: s)
  case Nil
  then have "child (hp s) n = None" by simp
  then show ?case by (simp add: delete_rec_done cleared_empty)
next
  case (Cons t1 rest)
  let ?h = "hp s" and ?c1 = "root_of t1" and ?S1 = "set (nodes t1)"
  let ?S2 = "set (concat (map nodes rest))"
  let ?pidx = "QIndex r 0 par"
  from Cons.prems(2) have hd: "child ?h n = Some ?c1" and pv: "sibling_prev ?h ?c1 = None"
    and dc: "dchain ?h (Some ?c1) (sibling_next ?h ?c1) (map root_of rest)"
    by simp_all
  have roots: "set (map root_of rest) \<subseteq> ?S2" using root_in_nodes by auto
  have disj: "?S1 \<inter> ?S2 = {}" using Cons.prems(4) by auto
  have t1: "t1 \<in> set ts" using Cons.prems(1) by simp
  have rdisj: "set (map root_of rest) \<inter> ?S1 = {}" using roots disj by blast
  have hds: "heads ?h t1 n (map root_of rest)"
    unfolding heads_def
    using Cons.prems(3,4,5) hd pv dchain_chain[OF dc] rdisj by simp
  have cidx: "index s 0 0 ?pidx = Some (QIndex 0 0 n)"
    using Cons.prems(6,8) by (rule index_head)
  let ?s1 = "s\<lparr> hp := wipe ?h n ?c1 ?S1, removed := removed s @ postorder t1 \<rparr>"
  have d1: "delete_rec s (DeleteNode ?c1 (QIndex 0 0 n)) = Some ?s1"
    using IH[OF t1 hds] .
  have nS1: "n \<notin> ?S1" using Cons.prems(5) by simp
  have pS1: "par \<notin> ?S1" using Cons.prems(9) by simp
  have ch1: "child (hp ?s1) n = sibling_next ?h ?c1" using nS1 by (simp add: wipe_def)
  have nx_in: "\<And>a. sibling_next ?h ?c1 = Some a \<Longrightarrow> a \<in> ?S2"
  proof -
    fix a assume "sibling_next ?h ?c1 = Some a"
    with dc have "a \<in> set (map root_of rest)" by (cases rest) auto
    with roots show "a \<in> ?S2" by blast
  qed
  have dc1: "dchain (hp ?s1) None (child (hp ?s1) n) (map root_of rest)"
  proof (cases rest)
    case Nil
    with dc ch1 show ?thesis by simp
  next
    case (Cons t2 more)
    let ?c2 = "root_of t2"
    from dc Cons have nx: "sibling_next ?h ?c1 = Some ?c2"
      and rest2: "dchain ?h (Some ?c2) (sibling_next ?h ?c2) (map root_of more)" by simp_all
    have out: "\<And>x. x \<in> set (map root_of rest) \<Longrightarrow> x \<notin> ?S1" using roots disj by blast
    have c2out: "?c2 \<notin> ?S1" using out Cons by simp
    have "dchain (wipe ?h n ?c1 ?S1) (Some ?c2) (sibling_next ?h ?c2) (map root_of more)
            = dchain ?h (Some ?c2) (sibling_next ?h ?c2) (map root_of more)"
    proof (rule dchain_cong)
      fix x assume x: "x \<in> set (map root_of more)"
      then have xo: "x \<notin> ?S1" using out Cons by simp
      have "distinct (map root_of rest)" using dchain_chain[OF dc] by (rule chain_distinct)
      then have "?c2 \<notin> set (map root_of more)" using Cons by simp
      then have "x \<noteq> ?c2" using x by blast
      then show "sibling_prev (wipe ?h n ?c1 ?S1) x = sibling_prev ?h x
                 \<and> sibling_next (wipe ?h n ?c1 ?S1) x = sibling_next ?h x"
        using xo nx by (simp add: wipe_def)
    qed
    with rest2 have "dchain (wipe ?h n ?c1 ?S1) (Some ?c2) (sibling_next ?h ?c2) (map root_of more)"
      by simp
    then show ?thesis using Cons nx ch1 c2out by (simp add: wipe_def)
  qed
  have wf1: "\<forall>t\<in>set rest. wf_tree (hp ?s1) t"
  proof
    fix t assume t: "t \<in> set rest"
    have sub: "set (nodes t) \<subseteq> ?S2" using t by auto
    have "wf_tree (wipe ?h n ?c1 ?S1) t = wf_tree ?h t"
    proof (rule wf_tree_cong)
      fix a assume "a \<in> set (nodes t)"
      then have "a \<notin> ?S1" "a \<noteq> n" using sub disj Cons.prems(5) by auto
      then show "child (wipe ?h n ?c1 ?S1) a = child ?h a" by (simp add: wipe_def)
    next
      fix a assume a: "a \<in> set (tl (nodes t))"
      then have an: "a \<in> set (nodes t)" by (metis list.set_sel(2) tl_Nil)
      then have o: "a \<notin> ?S1" using sub disj by auto
      have "sibling_next ?h ?c1 \<noteq> Some a"
      proof
        assume "sibling_next ?h ?c1 = Some a"
        with dc have "a \<in> set (map root_of rest)" by (cases rest) auto
        then obtain u where u: "u \<in> set rest" "a = root_of u" by auto
        have dn: "distinct (nodes t)" using Cons.prems(4) t by (auto simp: distinct_concat_iff)
        have "a \<noteq> root_of t" using dn a by (subst (asm) nodes_Cons) auto
        then have "nodes u \<noteq> nodes t" using u(2) by (metis nodes_Cons list.inject)
        moreover have "a \<in> set (nodes u)" using u root_in_nodes by simp
        moreover have "\<And>ys zs. ys \<in> set (map nodes rest) \<Longrightarrow> zs \<in> set (map nodes rest)
              \<Longrightarrow> ys \<noteq> zs \<Longrightarrow> set ys \<inter> set zs = {}"
          using Cons.prems(4) by (simp add: distinct_concat_iff)
        ultimately have "set (nodes u) \<inter> set (nodes t) = {}" using t u(1) by simp
        then show False using an \<open>a \<in> set (nodes u)\<close> by blast
      qed
      with o show "parent (wipe ?h n ?c1 ?S1) a = parent ?h a
          \<and> sibling_prev (wipe ?h n ?c1 ?S1) a = sibling_prev ?h a
          \<and> sibling_next (wipe ?h n ?c1 ?S1) a = sibling_next ?h a"
        by (simp add: wipe_def)
    qed
    then show "wf_tree (hp ?s1) t" using Cons.prems(3) t by simp
  qed
  have chp: "child (hp ?s1) par = Some n" using pS1 Cons.prems(6,7) by (simp add: wipe_def)
  have sibs1: "chain (hp ?s1) (sibling_next (hp ?s1) n) sibs"
  proof -
    have "set sibs \<inter> ?S1 = {}" using Cons.prems(10) by auto
    then have "chain (wipe ?h n ?c1 ?S1) (sibling_next ?h n) sibs" using Cons.prems(8)
      by (simp add: chain_wipe)
    then show ?thesis using nS1 by (simp add: wipe_def)
  qed
  have rest_eq: "delete_rec ?s1 (DeleteLoop (child (hp ?s1) n) ?pidx)
           = Some (?s1\<lparr> hp := cleared (hp ?s1) n ?S2,
                       removed := removed ?s1 @ concat (map postorder rest) \<rparr>)"
    using Cons.prems(1,4,5,7,9,10) dc1 wf1 chp sibs1
    by (intro Cons.IH) auto
  have "delete_rec s (DeleteLoop (child ?h n) ?pidx)
          = delete_rec ?s1 (DeleteLoop (sibling_next ?h ?c1) ?pidx)"
    using hd cidx d1 by (simp add: delete_rec_loop)
  also have "\<dots> = Some (?s1\<lparr> hp := cleared (hp ?s1) n ?S2,
                       removed := removed ?s1 @ concat (map postorder rest) \<rparr>)"
    using rest_eq ch1 by simp
  also have "cleared (hp ?s1) n ?S2 = cleared ?h n (?S1 \<union> ?S2)"
    using cleared_wipe[OF nS1 nx_in] by simp
  finally show ?case by simp
qed


lemma delete_tree:
  "heads (hp s) t par sibs \<Longrightarrow>
   delete_rec s (DeleteNode (root_of t) (QIndex r 0 par))
     = Some (s\<lparr> hp := wipe (hp s) par (root_of t) (set (nodes t)),
                 removed := removed s @ postorder t \<rparr>)"
proof (induction t arbitrary: s par r sibs)
  case (Rose n ts)
  let ?h = "hp s" and ?S = "set (concat (map nodes ts))"
  from Rose.prems have dc: "dchain ?h None (child ?h n) (map root_of ts)"
    and wf: "\<forall>t\<in>set ts. wf_tree ?h t"
    and dist: "distinct (concat (map nodes ts))" and nS: "n \<notin> ?S"
    and cp: "child ?h par = Some n" and pv: "sibling_prev ?h n = None"
    and sibs: "chain ?h (sibling_next ?h n) sibs"
    and pn: "par \<noteq> n" and pS: "par \<notin> ?S" and sS: "set sibs \<inter> ?S = {}"
    by (auto simp: heads_def)
  let ?s1 = "s\<lparr> hp := cleared ?h n ?S, removed := removed s @ concat (map postorder ts) \<rparr>"
  have loop: "delete_rec s (DeleteLoop (child ?h n) (QIndex r 0 par)) = Some ?s1"
    using dc wf dist nS cp pn sibs pS sS
    by (intro delete_loop[where ts = ts] Rose.IH) auto
  have "child (hp ?s1) par = Some n" using cp pn pS by (simp add: cleared_def)
  then have "remove_node ?s1 (QIndex r 0 par) n
      = Some (True, ?s1\<lparr> hp := unlink (hp ?s1) par n, removed := removed ?s1 @ [n] \<rparr>)"
    by (rule remove_node_head)
  moreover have "unlink (hp ?s1) par n = wipe ?h par n (insert n ?S)"
    using unlink_cleared[OF cp pn pS nS pv] by simp
  ultimately show ?case using loop by (simp add: delete_rec_node)
qed


lemma dchain_prev:
  "dchain h prv c xs \<Longrightarrow> x \<in> set xs \<Longrightarrow>
   sibling_prev h x = prv \<or> (\<exists>q\<in>set xs. sibling_prev h x = Some q)"
proof (induction xs arbitrary: prv c)
  case Nil
  then show ?case by simp
next
  case (Cons y ys)
  show ?case
  proof (cases "x = y")
    case True
    with Cons.prems show ?thesis by simp
  next
    case False
    with Cons.prems have "x \<in> set ys" and "dchain h (Some y) (sibling_next h y) ys" by simp_all
    from Cons.IH[OF this(2,1)] show ?thesis by auto
  qed
qed

lemma inner_links:
  "wf_tree h t \<Longrightarrow> b \<in> set (tl (nodes t)) \<Longrightarrow>
   (\<exists>q\<in>set (nodes t). parent h b = Some q)
   \<and> (sibling_prev h b = None \<or> (\<exists>q\<in>set (nodes t). sibling_prev h b = Some q))"
proof (induction t)
  case (Rose a ts)
  from Rose.prems(2) obtain u where u: "u \<in> set ts" "b \<in> set (nodes u)" by auto
  have wfu: "wf_tree h u" and pu: "parent h (root_of u) = Some a"
    and dc: "dchain h None (child h a) (map root_of ts)"
    using Rose.prems(1) u(1) by auto
  have subu: "set (nodes u) \<subseteq> set (nodes (Rose a ts))" using u(1) by auto
  have roots: "set (map root_of ts) \<subseteq> set (nodes (Rose a ts))" using root_in_nodes by auto
  show ?case
  proof (cases "b = root_of u")
    case True
    have "b \<in> set (map root_of ts)" using True u(1) by simp
    from dchain_prev[OF dc this] roots
    have "sibling_prev h b = None \<or> (\<exists>q\<in>set (nodes (Rose a ts)). sibling_prev h b = Some q)"
      by blast
    then show ?thesis using True pu by simp
  next
    case False
    then have "b \<in> set (tl (nodes u))" using u(2) by (subst (asm) nodes_Cons) auto
    from Rose.IH[OF u(1) wfu this] subu show ?thesis by blast
  qed
qed

lemma reach_wipe:
  assumes ok: "links_ok h" and hd: "heads h t par sibs"
    and par: "par < nalloc h" and rt: "rt < nalloc h" "parent h rt = None"
  shows "reach (wipe h par (root_of t) (set (nodes t))) rt a \<Longrightarrow>
         a < nalloc h \<and> a \<notin> set (nodes t)"
proof (induction rule: reach.induct)
  let ?n = "root_of t" and ?S = "set (nodes t)"
  let ?h' = "wipe h par ?n ?S"
  from hd have wf: "wf_tree h t" and cp: "child h par = Some ?n" and pS: "par \<notin> ?S"
    by (simp_all add: heads_def)
  from links_okD(1)[OF ok par cp] have n: "?n < nalloc h" "parent h ?n = Some par"
      "sibling_prev h ?n = None" by simp_all
  have inner: "\<And>b. b \<in> ?S \<Longrightarrow> b \<noteq> ?n \<Longrightarrow>
      (\<exists>q\<in>?S. parent h b = Some q) \<and> (sibling_prev h b = None \<or> (\<exists>q\<in>?S. sibling_prev h b = Some q))"
  proof -
    fix b assume "b \<in> ?S" "b \<noteq> ?n"
    then have "b \<in> set (tl (nodes t))" by (subst (asm) nodes_Cons) auto
    then show "(\<exists>q\<in>?S. parent h b = Some q)
               \<and> (sibling_prev h b = None \<or> (\<exists>q\<in>?S. sibling_prev h b = Some q))"
      by (rule inner_links[OF wf])
  qed
  {
    case reach_self
    have "rt \<notin> ?S"
    proof
      assume "rt \<in> ?S"
      then show False using inner[of rt] n(2) rt(2) by (cases "rt = ?n") auto
    qed
    with rt(1) show ?case by simp
  next
    case (reach_child a b)
    then have a: "a < nalloc h" "a \<notin> ?S" by simp_all
    show ?case
    proof (cases "a = par")
      case True
      with reach_child.hyps(2) a(2) have nx: "sibling_next h ?n = Some b" by (simp add: wipe_def)
      from links_okD(2)[OF ok n(1) nx] n(2)
      have b: "b < nalloc h" "parent h b = Some par" "sibling_prev h b = Some ?n" by simp_all
      have "b \<notin> ?S"
      proof
        assume "b \<in> ?S"
        moreover have "b \<noteq> ?n" using b(3) n(3) by auto
        ultimately show False using inner[of b] b(2) pS by auto
      qed
      with b(1) show ?thesis by simp
    next
      case False
      with reach_child.hyps(2) a(2) have c: "child h a = Some b" by (simp add: wipe_def)
      from links_okD(1)[OF ok a(1) c]
      have b: "b < nalloc h" "parent h b = Some a" by simp_all
      have "b \<notin> ?S"
      proof
        assume bs: "b \<in> ?S"
        show False
        proof (cases "b = ?n")
          case True
          with b(2) n(2) False show False by simp
        next
          case False
          with inner[OF bs] b(2) a(2) show False by auto
        qed
      qed
      with b(1) show ?thesis by simp
    qed
  next
    case (reach_next a b)
    then have a: "a < nalloc h" "a \<notin> ?S" by simp_all
    with reach_next.hyps(2) have nx: "sibling_next h a = Some b" by (simp add: wipe_def)
    from links_okD(2)[OF ok a(1) nx] have b: "b < nalloc h" "sibling_prev h b = Some a" by simp_all
    have "b \<notin> ?S"
    proof
      assume bs: "b \<in> ?S"
      show False
      proof (cases "b = ?n")
        case True
        with b(2) n(3) show False by simp
      next
        case False
        with inner[OF bs] b(2) a(2) show False by auto
      qed
    qed
    with b(1) show ?case by simp
  }
qed


lemma unlink_fields:
  assumes "sibling_prev h node \<noteq> Some node" and "sibling_next h node \<noteq> Some node"
  shows "sibling_next (unlink h par node) a =
           (if a = node then None
            else if sibling_prev h node = Some a then sibling_next h node else sibling_next h a)"
    and "sibling_prev (unlink h par node) a =
           (if a = node then None
            else if sibling_next h node = Some a then sibling_prev h node else sibling_prev h a)"
    and "child (unlink h par node) a =
           (if a = par \<and> child h par = Some node then sibling_next h node else child h a)"
    and "parent (unlink h par node) a = (if a = node then None else parent h a)"
  using assms by (auto simp: unlink_def Let_def split: option.splits)

lemma chain_next_in:
  "chain h c xs \<Longrightarrow> x \<in> set xs \<Longrightarrow>
   sibling_next h x = None \<or> (\<exists>y\<in>set xs. sibling_next h x = Some y \<and> y \<noteq> x)"
proof (induction xs arbitrary: c)
  case Nil
  then show ?case by simp
next
  case (Cons a as)
  show ?case
  proof (cases "x = a")
    case True
    from Cons.prems(1) have c: "chain h (sibling_next h a) as" by simp
    then have "a \<notin> set as" by (rule chain_notin)
    with c True show ?thesis by (cases as) auto
  next
    case False
    with Cons.prems have "x \<in> set as" "chain h (sibling_next h a) as" by simp_all
    from Cons.IH[OF this(2,1)] show ?thesis by auto
  qed
qed

lemma dchain_prev_ne:
  "dchain h prv c xs \<Longrightarrow> x \<in> set xs \<Longrightarrow> prv \<noteq> Some x \<Longrightarrow> sibling_prev h x \<noteq> Some x"
proof (induction xs arbitrary: prv c)
  case Nil
  then show ?case by simp
next
  case (Cons y ys)
  show ?case
  proof (cases "x = y")
    case True
    with Cons.prems show ?thesis by simp
  next
    case False
    with Cons.prems have "x \<in> set ys" "dchain h (Some y) (sibling_next h y) ys" by simp_all
    from Cons.IH[OF this(2,1)] False show ?thesis by simp
  qed
qed

lemma dchain_splice:
  assumes nx: "\<And>a. sibling_next h' a =
           (if a = node then None
            else if sibling_prev h node = Some a then sibling_next h node else sibling_next h a)"
    and pv: "\<And>a. sibling_prev h' a =
           (if a = node then None
            else if sibling_next h node = Some a then sibling_prev h node else sibling_prev h a)"
  shows "dchain h prv c xs \<Longrightarrow> node \<in> set xs \<Longrightarrow> prv \<notin> Some ` set xs \<Longrightarrow>
         dchain h' prv (if c = Some node then sibling_next h node else c) (remove1 node xs)"
proof (induction xs arbitrary: prv c)
  case Nil
  then show ?case by simp
next
  case (Cons x xs)
  from Cons.prems(1) have c: "c = Some x" and px: "sibling_prev h x = prv"
    and D: "dchain h (Some x) (sibling_next h x) xs" by simp_all
  have dist: "distinct (x # xs)" using dchain_chain[OF Cons.prems(1)] by (rule chain_distinct)
  show ?case
  proof (cases "x = node")
    case True
    have pn: "sibling_prev h node = prv" using px True by simp
    have "dchain h' prv (sibling_next h node) xs"
    proof (cases xs)
      case Nil
      with D True show ?thesis by simp
    next
      case (Cons y ys)
      with D True have ny: "sibling_next h node = Some y" and py: "sibling_prev h y = Some node"
        and D2: "dchain h (Some y) (sibling_next h y) ys" by simp_all
      have yn: "y \<noteq> node" using dist True Cons by auto
      have prvy: "prv \<noteq> Some y" using Cons.prems(3) Cons by auto
      have 1: "sibling_prev h' y = prv" using pv[of y] yn ny pn by simp
      have 2: "sibling_next h' y = sibling_next h y" using nx[of y] yn pn prvy by simp
      have "dchain h' (Some y) (sibling_next h y) ys = dchain h (Some y) (sibling_next h y) ys"
      proof (rule dchain_cong)
        fix z assume z: "z \<in> set ys"
        then have "z \<noteq> node" "z \<noteq> y" using dist True Cons by auto
        moreover have "prv \<noteq> Some z" using Cons.prems(3) Cons z by auto
        ultimately show "sibling_prev h' z = sibling_prev h z \<and> sibling_next h' z = sibling_next h z"
          using pv[of z] nx[of z] ny pn by simp
      qed
      with D2 1 2 ny Cons show ?thesis by simp
    qed
    with True c show ?thesis by simp
  next
    case False
    with Cons.prems(2) have nin: "node \<in> set xs" by simp
    have xnot: "x \<notin> set xs" using dist by simp
    have "sibling_next h node \<noteq> Some x"
      using chain_next_in[OF dchain_chain[OF D] nin] xnot by auto
    then have 1: "sibling_prev h' x = prv" using pv[of x] False px by simp
    have iff: "sibling_prev h node = Some x \<longleftrightarrow> sibling_next h x = Some node"
    proof (cases xs)
      case Nil
      with nin show ?thesis by simp
    next
      case (Cons y ys)
      with D have ny: "sibling_next h x = Some y" and py: "sibling_prev h y = Some x"
        and D2: "dchain h (Some y) (sibling_next h y) ys" by simp_all
      show ?thesis
      proof (cases "node = y")
        case True
        with ny py show ?thesis by simp
      next
        case False
        with nin Cons have "node \<in> set ys" by simp
        from dchain_prev[OF D2 this] xnot Cons False ny show ?thesis by auto
      qed
    qed
    have 2: "sibling_next h' x = (if sibling_next h x = Some node then sibling_next h node
                                  else sibling_next h x)"
      using nx[of x] False iff by simp
    have "Some x \<notin> Some ` set xs" using xnot by auto
    from Cons.IH[OF D nin this] 1 2 c False show ?thesis by simp
  qed
qed

lemma remove_node_splice:
  assumes dc: "dchain (hp s) None (child (hp s) p) xs" and x: "x \<in> set xs" and p: "p \<notin> set xs"
  shows "\<exists>s'. remove_node s (QIndex r c p) x = Some (True, s')
           \<and> dchain (hp s') None (child (hp s') p) (remove1 x xs)
           \<and> parent (hp s') x = None \<and> sibling_prev (hp s') x = None
           \<and> sibling_next (hp s') x = None \<and> child (hp s') x = child (hp s) x
           \<and> removed s' = removed s @ [x]"
proof -
  let ?h = "hp s" and ?h' = "unlink (hp s) p x"
  have ch: "chain ?h (child ?h p) xs" using dc by (rule dchain_chain)
  have fr: "find_row ?h x (child ?h p) = Some (Some x)" using find_row_chain[OF ch] x by simp
  have rn: "remove_node s (QIndex r c p) x
              = Some (True, s\<lparr> hp := ?h', removed := removed s @ [x] \<rparr>)"
    using fr by (simp add: remove_node_def)
  have a1: "sibling_prev ?h x \<noteq> Some x" using dchain_prev_ne[OF dc x] by simp
  have a2: "sibling_next ?h x \<noteq> Some x" using chain_next_in[OF ch x] by auto
  note uf = unlink_fields[OF a1 a2]
  have "dchain ?h' None (if child ?h p = Some x then sibling_next ?h x else child ?h p)
          (remove1 x xs)"
    using dc x by (intro dchain_splice uf) auto
  moreover have "child ?h' p = (if child ?h p = Some x then sibling_next ?h x else child ?h p)"
    using uf(3)[where par = p and a = p] by simp
  ultimately have d': "dchain ?h' None (child ?h' p) (remove1 x xs)" by simp
  have cx: "child ?h' x = child ?h x" using uf(3)[where par = p and a = x] x p by auto
  show ?thesis
    using rn d' cx uf(1)[where par = p and a = x] uf(2)[where par = p and a = x]
      uf(4)[where par = p and a = x] by simp
qed


lemma index_from_chain:
  "chain h c xs \<Longrightarrow> node \<in> set xs \<Longrightarrow>
   index_from h node c i = Some (i + length (takeWhile (\<lambda>x. x \<noteq> node) xs))"
  by (induction xs arbitrary: c i) (subst index_from.simps, auto)+

lemma advance_chain:
  "chain h c xs \<Longrightarrow> i < length xs \<Longrightarrow> advance h c i = Some (xs ! i)"
proof (induction i arbitrary: c xs)
  case 0
  then show ?case by (cases xs) auto
next
  case (Suc i)
  then show ?case by (cases xs) auto
qed

lemma takeWhile_position:
  "node \<in> set xs \<Longrightarrow>
   length (takeWhile (\<lambda>x. x \<noteq> node) xs) < length xs
   \<and> xs ! length (takeWhile (\<lambda>x. x \<noteq> node) xs) = node"
  by (induction xs) auto

lemma sibling_index_Some_result:
  "sibling_index h (Some n) = Some res \<Longrightarrow> \<exists>i. res = Inr i"
  by (auto simp: sibling_index_def split: option.splits)

lemma parent_index:
  assumes pp: "parent (hp s) par = Some gp"
    and gcs: "listChildren (hp s) gp = Some gcs" and pin: "par \<in> set gcs"
    and mc: "model_current s = model_root s"
    and gi: "gp = model_root s \<or> sibling_index (hp s) (Some gp) \<noteq> None"
  shows "\<exists>row gidx. sibling_index (hp s) (Some par) = Some (Inr row)
           \<and> model_parent s (QIndex 0 0 par) = Some (Inr gidx)
           \<and> index s row 0 gidx = Some (QIndex row 0 par)"
proof -
  let ?h = "hp s"
  let ?row = "length (takeWhile (\<lambda>x. x \<noteq> par) gcs)"
  have ch: "chain ?h (child ?h gp) gcs" using gcs by (simp add: listChildren_iff)
  have si: "sibling_index ?h (Some par) = Some (Inr ?row)"
    using pp index_from_chain[OF ch pin, of 0] by (simp add: sibling_index_def)
  have rl: "?row < length gcs" and nth: "gcs ! ?row = par"
    using takeWhile_position[OF pin] by simp_all
  have adv: "advance ?h (child ?h gp) ?row = Some par"
    using advance_chain[OF ch rl] nth by simp
  have cnt: "count_from ?h (child ?h gp) 0 = Some (length gcs)"
    using count_from_chain[OF ch, of 0] by simp
  obtain gidx where mp: "model_parent s (QIndex 0 0 par) = Some (Inr gidx)"
    and no: "node_of s gidx = gp" and col: "gidx = QInvalid \<or> (\<exists>j. gidx = QIndex j 0 gp)"
  proof (cases "gp = model_root s")
    case True
    then have "model_parent s (QIndex 0 0 par) = Some (Inr QInvalid)" using pp by simp
    moreover have "node_of s QInvalid = gp" using True mc by simp
    ultimately show ?thesis using that by blast
  next
    case False
    with gi obtain res where r: "sibling_index ?h (Some gp) = Some res" by auto
    then obtain j where "res = Inr j" using sibling_index_Some_result by blast
    with r False mc pp have "model_parent s (QIndex 0 0 par) = Some (Inr (QIndex j 0 gp))"
      by simp
    then show ?thesis using that by auto
  qed
  have rc: "rowCount s gidx = Some (length gcs)"
    using col no cnt by (cases gidx) auto
  have "index s ?row 0 gidx = Some (QIndex ?row 0 par)"
    using rc rl no adv by (simp add: index_def hasIndex_def columnCount_def)
  with si mp show ?thesis by blast
qed

lemma delete_item_subtree:
  assumes hd: "heads (hp s) t par sibs" and nr: "root_of t \<noteq> root s"
    and pn: "parent (hp s) (root_of t) = Some par"
    and pp: "parent (hp s) par = Some gp"
    and gcs: "listChildren (hp s) gp = Some gcs" and pin: "par \<in> set gcs"
    and mc: "model_current s = model_root s"
    and gi: "gp = model_root s \<or> sibling_index (hp s) (Some gp) \<noteq> None"
    and rp: "parent (hp s) (root s) = None"
  shows "\<exists>s'. delete_item s (root_of t) True = Some (Inr (), s')
           \<and> hp s' = hp (after_delete s t par)
           \<and> removed s' = removed s @ postorder t
           \<and> history s' = filter (\<lambda>n. n \<noteq> root_of t) (history s)
           \<and> future s' = filter (\<lambda>n. n \<noteq> root_of t) (future s)
           \<and> current s' = (if current s = root_of t then root s else current s)"
proof -
  let ?n = "root_of t"
  from hd have cp: "child (hp s) par = Some ?n" by (simp add: heads_def)
  obtain row gidx where si: "sibling_index (hp s) (Some par) = Some (Inr row)"
    and mp: "model_parent s (QIndex 0 0 par) = Some (Inr gidx)"
    and ix: "index s row 0 gidx = Some (QIndex row 0 par)"
    using parent_index[OF pp gcs pin mc gi] by blast
  have dn: "delete_node s ?n (QIndex row 0 par) = Some (after_delete s t par)"
    using delete_tree[OF hd] by (simp add: delete_node_def after_delete_def)
  have "parent (hp (after_delete s t par)) (root s) = None"
    using rp by (simp add: after_delete_def wipe_def)
  then have "path_names (hp (after_delete s t par)) (root s) [] = Some []"
    by (subst path_names.simps) simp
  then have fp: "full_path (hp (after_delete s t par)) (root s) = Some ''/''"
    by (simp add: full_path_def)
  show ?thesis
    using nr si mp ix dn pn fp
    by (auto simp: delete_item_def Let_def after_delete_def simp del: model_parent.simps)
qed

lemma detach_parent: "detach h node = Some h1 \<Longrightarrow> parent h1 = parent h"
  by (auto simp: detach_def Let_def split: option.splits if_splits Option.bind_splits)

lemma deleteNode_rec_parent:
  assumes "deleteNode_rec h c = Some h1" shows "parent h1 = parent h"
proof (rule deleteNode_rec.raw_induct[where P = "\<lambda>h c h1. parent h1 = parent h", OF _ assms])
  fix del h c h1
  assume ih: "\<And>h c h1. del h c = Some h1 \<Longrightarrow> parent h1 = parent h"
    and eq: "(case c of
               SDelete node \<Rightarrow>
                 Option.bind (detach h node) (\<lambda>h1.
                   case child h1 node of None \<Rightarrow> Some h1
                   | Some first \<Rightarrow> del h1 (SLoop (Some first)))
             | SLoop sib \<Rightarrow>
                 (case sib of None \<Rightarrow> Some h
                  | Some sb \<Rightarrow>
                      Option.bind (del h (SDelete sb)) (\<lambda>h1.
                        del h1 (SLoop (sibling_next h sb))))) = Some h1"
  show "parent h1 = parent h"
  proof (cases c)
    case (SDelete node)
    with eq obtain h2 where d: "detach h node = Some h2"
      and r: "(case child h2 node of None \<Rightarrow> Some h2
               | Some first \<Rightarrow> del h2 (SLoop (Some first))) = Some h1"
      by (auto split: Option.bind_splits)
    from r have "parent h1 = parent h2" using ih by (cases "child h2 node") auto
    with detach_parent[OF d] show ?thesis by simp
  next
    case (SLoop sib)
    show ?thesis
    proof (cases sib)
      case None
      with eq SLoop show ?thesis by simp
    next
      case (Some sb)
      with eq SLoop obtain h2 where "del h (SDelete sb) = Some h2"
        and "del h2 (SLoop (sibling_next h sb)) = Some h1"
        by (auto split: Option.bind_splits)
      then show ?thesis using ih by metis
    qed
  qed
qed

lemma wipe_listChildren:
  assumes "heads h t par sibs"
  shows "listChildren (wipe h par (root_of t) (set (nodes t))) par = Some sibs"
proof -
  from assms have c: "chain h (sibling_next h (root_of t)) sibs"
    and d: "set sibs \<inter> set (nodes t) = {}" and p: "par \<notin> set (nodes t)"
    by (simp_all add: heads_def)
  have "chain (wipe h par (root_of t) (set (nodes t))) (sibling_next h (root_of t)) sibs"
    using c d by (simp add: chain_wipe)
  then show ?thesis using p by (simp add: listChildren_iff wipe_def)
qed

text \<open>
  C1 (amended).  Let the heap hold the subtree \<open>t\<close>, whose root is the first child of \<open>par\<close>,
  and let \<^verbatim>\<open>_delete_node\<close> of winfilesystem.py be called for that root with an index of
  \<open>par\<close>.  Then the call returns; \<^verbatim>\<open>remove_node\<close> has run for exactly the nodes of \<open>t\<close>, in
  post-order (every child subtree, in list order, before its root, so leaves before their
  parents); \<open>par\<close> lists the former following siblings; every node of \<open>t\<close> has lost its
  parent, sibling and child links; and, on a tree with consistent links, no node of \<open>t\<close> can
  be reached from a root \<open>rt\<close> any more.  One \<^verbatim>\<open>remove_node\<close> call splices any listed child
  \<open>x\<close> of \<open>p\<close> out of the doubly linked child list and clears its parent and sibling links;
  it does not touch the child link of \<open>x\<close>.  \<^verbatim>\<open>delete_item\<close> makes exactly that call of
  \<^verbatim>\<open>_delete_node\<close> when the parent \<open>par\<close> of the node has a parent of its own, and then
  reports no error.  \<^verbatim>\<open>deleteNode\<close> of simplefilesystem.py never assigns a parent link.
\<close>

theorem delete_node_postorder:
  "(heads (hp s) t par sibs \<longrightarrow>
      delete_node s (root_of t) (QIndex r 0 par) = Some (after_delete s t par)
      \<and> removed (after_delete s t par) = removed s @ postorder t
      \<and> listChildren (hp (after_delete s t par)) par = Some sibs
      \<and> (\<forall>a\<in>set (nodes t).
            parent (hp (after_delete s t par)) a = None
            \<and> child (hp (after_delete s t par)) a = None
            \<and> sibling_prev (hp (after_delete s t par)) a = None
            \<and> sibling_next (hp (after_delete s t par)) a = None)
      \<and> (links_ok (hp s) \<and> par < nalloc (hp s) \<and> rt < nalloc (hp s)
           \<and> parent (hp s) rt = None \<longrightarrow>
           (\<forall>a\<in>set (nodes t). \<not> reach (hp (after_delete s t par)) rt a)))
   \<and> (dchain (hp s) None (child (hp s) p) xs \<and> x \<in> set xs \<and> p \<notin> set xs \<longrightarrow>
        (\<exists>s'. remove_node s (QIndex r c p) x = Some (True, s')
           \<and> dchain (hp s') None (child (hp s') p) (remove1 x xs)
           \<and> parent (hp s') x = None \<and> sibling_prev (hp s') x = None
           \<and> sibling_next (hp s') x = None \<and> child (hp s') x = child (hp s) x
           \<and> removed s' = removed s @ [x]))
   \<and> (heads (hp s) t par sibs \<and> root_of t \<noteq> root s \<and> parent (hp s) (root_of t) = Some par
        \<and> parent (hp s) par = Some gp \<and> listChildren (hp s) gp = Some gcs \<and> par \<in> set gcs
        \<and> model_current s = model_root s
        \<and> (gp = model_root s \<or> sibling_index (hp s) (Some gp) \<noteq> None)
        \<and> parent (hp s) (root s) = None \<longrightarrow>
        (\<exists>s'. delete_item s (root_of t) True = Some (Inr (), s')
           \<and> hp s' = hp (after_delete s t par)
           \<and> removed s' = removed s @ postorder t))
   \<and> (deleteNode_rec h0 c0 = Some h1 \<longrightarrow> parent h1 = parent h0)"
proof (intro conjI impI ballI)
  assume hd: "heads (hp s) t par sibs"
  show "delete_node s (root_of t) (QIndex r 0 par) = Some (after_delete s t par)"
    using delete_tree[OF hd] by (simp add: delete_node_def after_delete_def)
  show "removed (after_delete s t par) = removed s @ postorder t"
    by (simp add: after_delete_def)
  show "listChildren (hp (after_delete s t par)) par = Some sibs"
    using wipe_listChildren[OF hd] by (simp add: after_delete_def)
  {
    fix a assume "a \<in> set (nodes t)"
    then show "parent (hp (after_delete s t par)) a = None"
      and "child (hp (after_delete s t par)) a = None"
      and "sibling_prev (hp (after_delete s t par)) a = None"
      and "sibling_next (hp (after_delete s t par)) a = None"
      by (simp_all add: after_delete_def wipe_def)
  }
  {
    fix a
    assume ok: "links_ok (hp s) \<and> par < nalloc (hp s) \<and> rt < nalloc (hp s)
                \<and> parent (hp s) rt = None"
      and a: "a \<in> set (nodes t)"
    show "\<not> reach (hp (after_delete s t par)) rt a"
    proof
      assume "reach (hp (after_delete s t par)) rt a"
      then have "reach (wipe (hp s) par (root_of t) (set (nodes t))) rt a"
        by (simp add: after_delete_def)
      from reach_wipe[OF _ hd _ _ _ this] ok a show False by simp
    qed
  }
next
  assume "dchain (hp s) None (child (hp s) p) xs \<and> x \<in> set xs \<and> p \<notin> set xs"
  then show "\<exists>s'. remove_node s (QIndex r c p) x = Some (True, s')
           \<and> dchain (hp s') None (child (hp s') p) (remove1 x xs)
           \<and> parent (hp s') x = None \<and> sibling_prev (hp s') x = None
           \<and> sibling_next (hp s') x = None \<and> child (hp s') x = child (hp s) x
           \<and> removed s' = removed s @ [x]"
    by (intro remove_node_splice) simp_all
next
  assume a: "heads (hp s) t par sibs \<and> root_of t \<noteq> root s \<and> parent (hp s) (root_of t) = Some par
        \<and> parent (hp s) par = Some gp \<and> listChildren (hp s) gp = Some gcs \<and> par \<in> set gcs
        \<and> model_current s = model_root s
        \<and> (gp = model_root s \<or> sibling_index (hp s) (Some gp) \<noteq> None)
        \<and> parent (hp s) (root s) = None"
  then have "\<exists>s'. delete_item s (root_of t) True = Some (Inr (), s')
           \<and> hp s' = hp (after_delete s t par)
           \<and> removed s' = removed s @ postorder t
           \<and> history s' = filter (\<lambda>n. n \<noteq> root_of t) (history s)
           \<and> future s' = filter (\<lambda>n. n \<noteq> root_of t) (future s)
           \<and> current s' = (if current s = root_of t then root s else current s)"
    by (intro delete_item_subtree[where gp = gp and gcs = gcs and sibs = sibs]) simp_all
  then show "\<exists>s'. delete_item s (root_of t) True = Some (Inr (), s')
           \<and> hp s' = hp (after_delete s t par)
           \<and> removed s' = removed s @ postorder t"
    by blast
next
  assume "deleteNode_rec h0 c0 = Some h1"
  then show "parent h1 = parent h0" by (rule deleteNode_rec_parent)
qed


theorem delete_node_postorder_witness:
  "heads (hp (the demo)) (Rose 2 [Rose 3 []]) 1 [4]
   \<and> delete_node (the demo) 2 (QIndex 0 0 1)
       = Some (after_delete (the demo) (Rose 2 [Rose 3 []]) 1)
   \<and> removed (after_delete (the demo) (Rose 2 [Rose 3 []]) 1) = [3, 2]
   \<and> listChildren (hp (after_delete (the demo) (Rose 2 [Rose 3 []]) 1)) 1 = Some [4]
   \<and> parent (hp (after_delete (the demo) (Rose 2 [Rose 3 []]) 1)) 3 = None
   \<and> child (hp (after_delete (the demo) (Rose 2 [Rose 3 []]) 1)) 2 = None
   \<and> links_ok (hp (the demo))
   \<and> \<not> reach (hp (after_delete (the demo) (Rose 2 [Rose 3 []]) 1)) 0 2
   \<and> \<not> reach (hp (after_delete (the demo) (Rose 2 [Rose 3 []]) 1)) 0 3
   \<and> dchain (hp (the demo)) None (child (hp (the demo)) 1) [2, 4]
   \<and> (\<exists>s'. remove_node (the demo) (QIndex 0 0 1) 4 = Some (True, s')
          \<and> dchain (hp s') None (child (hp s') 1) [2]
          \<and> parent (hp s') 4 = None \<and> sibling_prev (hp s') 4 = None
          \<and> child (hp s') 4 = Some 5)
   \<and> (\<exists>s'. delete_item (the demo) 2 True = Some (Inr (), s')
          \<and> hp s' = hp (after_delete (the demo) (Rose 2 [Rose 3 []]) 1)
          \<and> removed s' = [3, 2])
   \<and> (\<exists>h1. deleteNode_rec (fs_heap (the simple_demo)) (SDelete 1) = Some h1
          \<and> parent h1 1 = Some 0)"
proof -
  let ?s = "the demo" and ?t = "Rose 2 [Rose 3 []]"
  have hd: "heads (hp ?s) ?t 1 [4]" by code_simp
  have ok: "links_ok (hp ?s) \<and> 1 < nalloc (hp ?s) \<and> 0 < nalloc (hp ?s) \<and> parent (hp ?s) 0 = None"
    by code_simp
  have dc: "dchain (hp ?s) None (child (hp ?s) 1) [2, 4] \<and> 4 \<in> set [2, 4 :: nat]
            \<and> 1 \<notin> set [2, 4 :: nat]"
    by code_simp
  have r0: "removed ?s = []" by code_simp
  have c4: "child (hp ?s) 4 = Some 5" by code_simp
  have "map_option (\<lambda>h. ()) (deleteNode_rec (fs_heap (the simple_demo)) (SDelete 1)) = Some ()"
    by code_simp
  then obtain h1 where sd: "deleteNode_rec (fs_heap (the simple_demo)) (SDelete 1) = Some h1"
    by auto
  have p1: "parent (fs_heap (the simple_demo)) 1 = Some 0" by code_simp
  have di: "root_of ?t \<noteq> root ?s \<and> parent (hp ?s) (root_of ?t) = Some 1
      \<and> parent (hp ?s) 1 = Some 0 \<and> listChildren (hp ?s) 0 = Some [1] \<and> 1 \<in> set [1 :: nat]
      \<and> model_current ?s = model_root ?s \<and> 0 = model_root ?s \<and> parent (hp ?s) (root ?s) = None"
    by code_simp
  note w = delete_node_postorder[where s = ?s and t = ?t and par = 1 and sibs = "[4]" and r = 0
      and rt = 0 and p = 1 and xs = "[2, 4]" and x = 4 and c = 0 and gp = 0 and gcs = "[1]"
      and ?h0.0 = "fs_heap (the simple_demo)" and ?c0.0 = "SDelete 1" and ?h1.0 = h1]
  from w hd di r0 have 4: "\<exists>s'. delete_item ?s 2 True = Some (Inr (), s')
          \<and> hp s' = hp (after_delete ?s ?t 1) \<and> removed s' = [3, 2]"
    by simp
  from w dc c4 have 2: "\<exists>s'. remove_node ?s (QIndex 0 0 1) 4 = Some (True, s')
          \<and> dchain (hp s') None (child (hp s') 1) [2]
          \<and> parent (hp s') 4 = None \<and> sibling_prev (hp s') 4 = None
          \<and> child (hp s') 4 = Some 5"
    by auto
  from w sd p1 have 3: "\<exists>h1. deleteNode_rec (fs_heap (the simple_demo)) (SDelete 1) = Some h1
          \<and> parent h1 1 = Some 0"
    by auto
  from w hd ok r0 have 1: "delete_node ?s 2 (QIndex 0 0 1) = Some (after_delete ?s ?t 1)
     \<and> removed (after_delete ?s ?t 1) = [3, 2]
     \<and> listChildren (hp (after_delete ?s ?t 1)) 1 = Some [4]
     \<and> parent (hp (after_delete ?s ?t 1)) 3 = None
     \<and> child (hp (after_delete ?s ?t 1)) 2 = None
     \<and> \<not> reach (hp (after_delete ?s ?t 1)) 0 2
     \<and> \<not> reach (hp (after_delete ?s ?t 1)) 0 3"
    by simp
  show ?thesis using hd ok dc 1 2 3 4 by simp
qed

text \<open>
  In winfilesystem.py, deleting \<^verbatim>\<open>ROOT\<close> (1), a child of the root, fails with an
  \<^verbatim>\<open>AttributeError\<close> and removes nothing.  Deleting \<^verbatim>\<open>f\<close> (4), the second child of \<^verbatim>\<open>ROOT\<close>,
  removes \<^verbatim>\<open>f\<close> alone: its child \<^verbatim>\<open>g\<close> (5) is not removed, \<^verbatim>\<open>f\<close> keeps its child link and \<^verbatim>\<open>g\<close>
  its parent link.  In simplefilesystem.py, deleting \<^verbatim>\<open>d\<close> (1) unlinks it from the root, but
  \<^verbatim>\<open>d\<close> and its child \<^verbatim>\<open>x\<close> (2) keep their parent links.
\<close>

theorem delete_counterexample:
  "Option.bind demo (\<lambda>s. map_option
      (\<lambda>(r, s'). (r, removed s', listChildren (hp s') 0, listChildren (hp s') 1))
      (delete_item s 1 True))
     = Some (Inl AttributeError, [], Some [1], Some [2, 4])
   \<and> Option.bind demo (\<lambda>s. map_option
      (\<lambda>(r, s'). (r, removed s', listChildren (hp s') 1, child (hp s') 4, parent (hp s') 5))
      (delete_item s 4 True))
     = Some (Inr (), [4], Some [2], Some 5, Some 4)
   \<and> Option.bind simple_demo (\<lambda>s. map_option
      (\<lambda>s'. (listChildren (fs_heap s') 0, parent (fs_heap s') 1, parent (fs_heap s') 2))
      (deleteNode s 1))
     = Some (Some [], Some 0, Some 1)"
  by code_simp

subsection \<open>Stale references after a deletion\<close>

text \<open>
  C2.  In the state \<open>visited\<close> the history is \<open>[0, 1, 2, 3, 2]\<close> and the current node is
  \<^verbatim>\<open>e\<close> (3).  Deleting \<^verbatim>\<open>d\<close> (2) removes \<^verbatim>\<open>e\<close> and \<^verbatim>\<open>d\<close> (the log), and \<^verbatim>\<open>e\<close> has no parent
  any more; \<^verbatim>\<open>delete_item\<close> filters \<^verbatim>\<open>d\<close> out of the history, but \<^verbatim>\<open>e\<close> stays in it and
  stays the current node.
\<close>

theorem delete_item_keeps_descendant:
  "Option.bind visited (\<lambda>s. map_option
     (\<lambda>(r, s'). (r, nav s', removed s', parent (hp s') 3, listChildren (hp s') 1))
     (delete_item s 2 True))
   = Some (Inr (), (3, [0, 1, 3], []), [3, 2], None, Some [4])"
  by code_simp

subsection \<open>Navigation\<close>

lemma navigateUp_no_parent:
  "parent (hp s) (current s) = None \<Longrightarrow> navigateUp s = Some s"
  by (simp add: navigateUp_def)

lemma navigateUp_parent:
  assumes "parent (hp s) (current s) = Some p" and "navigateUp s = Some s'"
  shows "nav s' = (p, history s @ [current s], future s)"
  using assms by (auto simp: navigateUp_def nav_def Let_def split: Option.bind_splits)

text \<open>
  C9.  With \<^verbatim>\<open>d\<close> in the future stack and \<^verbatim>\<open>ROOT\<close> current, \<^verbatim>\<open>navigateUp\<close> moves to the root
  and pushes \<^verbatim>\<open>ROOT\<close> onto the history, but the future stack still holds \<^verbatim>\<open>d\<close>; the
  specification's \<open>up()\<close>, like \<^verbatim>\<open>navigateTree\<close> on the same target, leaves it empty.
\<close>

theorem navigateUp_keeps_future:
  "Option.bind went_back (\<lambda>s. map_option nav (navigateUp s)) = Some (0, [0, 1], [2])
   \<and> map_option (\<lambda>s. spec_up (hp s) (nav s)) went_back = Some (0, [0, 1], [])
   \<and> Option.bind went_back (\<lambda>s. map_option nav (navigateTree s (QIndex 0 0 0))) = Some (0, [0, 1], [])"
  by code_simp

end
